theory Spec2Isabelle
  imports Complex_Main "HOL-Library.Word" "HOL-Library.Signed_Division"
begin

unbundle bit_operations_syntax

section \<open>The parallel streaming copy benchmark of \<open>bandwidth.c\<close>\<close>

text \<open>
  The development follows \<open>src/bandwidth.c\<close> as it is built by default (no
  \<open>MCDRAM\<close>, \<open>MP\<close> or \<open>TUNED\<close>, \<open>STREAM_TYPE\<close> is \<open>float\<close>, \<open>OFFSET\<close> is 0):
  the kernel \<open>copy\<close>, the three loops of one trial in \<open>main\<close> (set-up of the work
  assignments, thread creation, join), the loop over the \<open>NTIMES\<close> trials, the
  summary loop and the printed bandwidth.

  Conventions of the model.
  \<^item> \<open>STREAM_ARRAY_SIZE\<close> is an integer constant (an \<open>int\<close>, or a \<open>long\<close> when it
    exceeds \<open>INT_MAX\<close>) and the thread count is an \<open>int\<close>; both are modelled as
    \<open>int\<close>. The chunk size, the products \<open>size*tt\<close> and the loop counter of the
    kernel are \<open>uint32_t\<close>, modelled as \<open>32 word\<close>: they wrap around.
  \<^item> A \<open>double\<close> is a value of \<open>dbl\<close>: a finite number, an infinity or NaN.
    Arithmetic on finite numbers is exact; rounding is not modelled.
  \<^item> An array is a list of elements; the kernel only moves elements, which are
    modelled as real numbers. A pointer into an array is an offset into the list.
    An array whose allocation failed has no valid index (the empty list).
  \<^item> An access outside an array, a misaligned vector access, and a join on a handle that
    no successful \<open>pthread_create\<close> has written are undefined behaviour: the
    outcome \<open>Undefined\<close>. A join on a thread that never leaves the barrier is the
    outcome \<open>Blocked\<close>.
  \<^item> The workers of a trial only read the source array, and every store puts the
    source element of an index into the destination element of the same index, so
    the model runs the workers one after the other, in the order of their creation
    (lemma \<open>run_workers_any_order\<close>: any other order gives the same arrays). For an
    array length below \<open>2\<^sup>3\<^sup>2\<close> the workers touch pairwise disjoint parts of the
    destination array. The clock samples of a worker are inputs.
\<close>

subsection \<open>Doubles\<close>

datatype dbl = Num real | PInf | NInf | NaN

fun dadd :: "dbl \<Rightarrow> dbl \<Rightarrow> dbl" where
  "dadd (Num x) (Num y) = Num (x + y)"
| "dadd NaN _ = NaN"
| "dadd _ NaN = NaN"
| "dadd PInf NInf = NaN"
| "dadd NInf PInf = NaN"
| "dadd PInf _ = PInf"
| "dadd _ PInf = PInf"
| "dadd NInf _ = NInf"
| "dadd _ NInf = NInf"

text \<open>Division; a zero divisor is the positive zero.\<close>

fun ddiv :: "dbl \<Rightarrow> dbl \<Rightarrow> dbl" where
  "ddiv (Num x) (Num y) =
     (if y \<noteq> 0 then Num (x / y)
      else if x = 0 then NaN else if 0 < x then PInf else NInf)"
| "ddiv NaN _ = NaN"
| "ddiv _ NaN = NaN"
| "ddiv (Num x) _ = Num 0"
| "ddiv PInf (Num y) = (if 0 \<le> y then PInf else NInf)"
| "ddiv NInf (Num y) = (if 0 \<le> y then NInf else PInf)"
| "ddiv _ _ = NaN"

text \<open>The comparison \<open>x < y\<close>; false as soon as one side is NaN.\<close>

fun dless :: "dbl \<Rightarrow> dbl \<Rightarrow> bool" where
  "dless (Num x) (Num y) = (x < y)"
| "dless NaN _ = False"
| "dless _ NaN = False"
| "dless _ NInf = False"
| "dless PInf _ = False"
| "dless _ _ = True"

text \<open>The macros \<open>MIN(x,y) ((x)<(y)?(x):(y))\<close> and \<open>MAX(x,y) ((x)>(y)?(x):(y))\<close>.\<close>

definition MIN_d :: "dbl \<Rightarrow> dbl \<Rightarrow> dbl" where
  "MIN_d x y = (if dless x y then x else y)"

definition MAX_d :: "dbl \<Rightarrow> dbl \<Rightarrow> dbl" where
  "MAX_d x y = (if dless y x then x else y)"

subsection \<open>Configuration\<close>

text \<open>\<open>FLT_MAX\<close> of \<open>float.h\<close>: \<open>(2 - 2^-23) * 2^127\<close>.\<close>

definition FLT_MAX :: real where
  "FLT_MAX = 340282346638528859811704183484516925440"

text \<open>
  \<open>NTIMES\<close>: 10 unless given on the compile line; a given value of 1 or less is
  replaced by 10.
\<close>

definition NTIMES :: "int option \<Rightarrow> int" where
  "NTIMES given = (case given of None \<Rightarrow> 10 | Some n \<Rightarrow> if n \<le> 1 then 10 else n)"

text \<open>The size of the arrays \<open>tid\<close>, \<open>attr\<close> and \<open>info\<close> of \<open>main\<close>.\<close>

definition MAX_THREADS :: int where
  "MAX_THREADS = 288"

text \<open>\<open>bytes[0] = 2 * sizeof(STREAM_TYPE) * STREAM_ARRAY_SIZE\<close>, computed in \<open>size_t\<close>.\<close>

definition bytes :: "int \<Rightarrow> real" where
  "bytes A = real (unat (2 * 4 * (word_of_int A :: 64 word)))"

subsection \<open>Outcomes, memory and the work assignment\<close>

datatype 'a result = Ret 'a | Undefined | Blocked

datatype arr = ArrA | ArrB | ArrC

datatype access = Rd arr nat | Wr arr nat

record mem =
  arr_a :: "real list"
  arr_b :: "real list"
  arr_c :: "real list"

text \<open>
  \<open>argc_t\<close>: the pointers \<open>a\<close>, \<open>b\<close>, \<open>c\<close> are offsets into the three arrays;
  \<open>time\<close> has no value until the worker stores one.
\<close>

record argc_t =
  arg_a :: nat
  arg_b :: nat
  arg_c :: nat
  arg_size :: "32 word"
  arg_time :: "dbl option"

definition get_cpu_id :: "int \<Rightarrow> int" where
  "get_cpu_id tid = tid"

text \<open>\<open>uint32_t size=(STREAM_ARRAY_SIZE/threads) & ~15;\<close>\<close>

definition chunk_size :: "int \<Rightarrow> int \<Rightarrow> 32 word" where
  "chunk_size A threads = word_of_int ((A sdiv threads) AND NOT 15)"

text \<open>
  The body of the set-up loop: \<open>info[tt].a=&a[size*tt]\<close> and so on; the product
  \<open>size*tt\<close> is computed in \<open>uint32_t\<close>.
\<close>

definition assign :: "int \<Rightarrow> int \<Rightarrow> int \<Rightarrow> argc_t" where
  "assign A threads tt =
     (let sz = chunk_size A threads; off = unat (sz * word_of_int tt)
      in \<lparr>arg_a = off, arg_b = off, arg_c = off, arg_size = sz, arg_time = None\<rparr>)"

subsection \<open>The kernel\<close>

text \<open>
  A 512-bit load or store at element offset \<open>p\<close> of a 64-byte aligned array of
  4-byte elements touches the 16 elements from \<open>p\<close> on and needs \<open>p\<close> to be a
  multiple of 16.
\<close>

definition vec_ok :: "real list \<Rightarrow> nat \<Rightarrow> bool" where
  "vec_ok xs p \<longleftrightarrow> p + 16 \<le> length xs \<and> 16 dvd p"

definition mm512_load_ps :: "real list \<Rightarrow> nat \<Rightarrow> real list" where
  "mm512_load_ps xs p = take 16 (drop p xs)"

definition mm512_stream_ps :: "real list \<Rightarrow> nat \<Rightarrow> real list \<Rightarrow> real list" where
  "mm512_stream_ps xs p v = take p xs @ v @ drop (p + 16) xs"

definition lanes :: "nat \<Rightarrow> nat list" where
  "lanes p = [p..<p + 16]"

text \<open>
  \<open>for (i=0;i<arg->size;i+=16)\<close>: the counter is a \<open>uint32_t\<close> and wraps around.
  The second component of the state lists the accesses made so far.
\<close>

partial_function (option) copy_loop ::
  "nat \<Rightarrow> nat \<Rightarrow> 32 word \<Rightarrow> 32 word \<Rightarrow> mem \<times> access list \<Rightarrow> (mem \<times> access list) result option"
where
  "copy_loop pa pb sz i s =
     (if i < sz then
        (if vec_ok (arr_a (fst s)) (pa + unat i) \<and> vec_ok (arr_b (fst s)) (pb + unat i) then
           copy_loop pa pb sz (i + 16)
             ((fst s)\<lparr>arr_b := mm512_stream_ps (arr_b (fst s)) (pb + unat i)
                                  (mm512_load_ps (arr_a (fst s)) (pa + unat i))\<rparr>,
              snd s @ map (Rd ArrA) (lanes (pa + unat i)) @ map (Wr ArrB) (lanes (pb + unat i)))
         else Some Undefined)
      else Some (Ret s))"

text \<open>
  \<open>copy\<close>: the worker. \<open>clk\<close> holds its two clock samples, taken after the first
  and after the second barrier.
\<close>

definition copy ::
  "argc_t \<Rightarrow> real \<times> real \<Rightarrow> mem \<Rightarrow> (argc_t \<times> mem \<times> access list) result option"
where
  "copy arg clk m =
     (case copy_loop (arg_a arg) (arg_b arg) (arg_size arg) 0 (m, []) of
        None \<Rightarrow> None
      | Some Undefined \<Rightarrow> Some Undefined
      | Some Blocked \<Rightarrow> Some Blocked
      | Some (Ret (m', acs)) \<Rightarrow>
          Some (Ret (arg\<lparr>arg_time := Some (Num (snd clk - fst clk))\<rparr>, m', acs)))"

subsection \<open>One trial\<close>

datatype thread = AtBarrier | Exited

datatype binding = Unbound | Bound int

text \<open>
  The arrays \<open>tid\<close>, \<open>attr\<close> and \<open>info\<close> of \<open>main\<close>. Every slot that a trial reads
  is written earlier in the same trial, or the read is undefined, so each trial
  starts from empty tables.
\<close>

record tables =
  tid :: "nat \<Rightarrow> thread option"
  attr :: "nat \<Rightarrow> binding option"
  info :: "nat \<Rightarrow> argc_t option"

definition no_tables :: tables where
  "no_tables = \<lparr>tid = (\<lambda>_. None), attr = (\<lambda>_. None), info = (\<lambda>_. None)\<rparr>"

text \<open>
  What the environment decides in one trial: whether
  \<open>pthread_attr_setaffinity_np\<close> and \<open>pthread_create\<close> succeed for a worker, and
  the two clock samples of the worker. Whether \<open>pthread_create\<close> succeeds may depend
  on the attribute it is given; a statement that relies on such a dependence says so
  as a condition on the environment (\<open>cores\<close>).
\<close>

record tenv =
  aff_ok :: "nat \<Rightarrow> bool"
  create_ok :: "nat \<Rightarrow> bool"
  clock :: "nat \<Rightarrow> real \<times> real"

text \<open>The set-up loop \<open>for (tt=0;tt<threads;++tt)\<close>; the result of the affinity call is dropped.\<close>

function setup_loop :: "int \<Rightarrow> int \<Rightarrow> (nat \<Rightarrow> bool) \<Rightarrow> int \<Rightarrow> tables \<Rightarrow> tables result" where
  "setup_loop A threads aff tt tb =
     (if tt < threads then
        (if 0 \<le> tt \<and> tt < MAX_THREADS then
           setup_loop A threads aff (tt + 1)
             (tb\<lparr>attr := (attr tb)(nat tt \<mapsto>
                     (if aff (nat tt) then Bound (get_cpu_id tt) else Unbound)),
                 info := (info tb)(nat tt \<mapsto> assign A threads tt)\<rparr>)
         else Undefined)
      else Ret tb)"
  by pat_completeness auto
termination
  by (relation "measure (\<lambda>(A, threads, aff, tt, tb). nat (threads - tt))") auto

text \<open>The creation loop; the result of \<open>pthread_create\<close> is dropped.\<close>

function create_loop :: "int \<Rightarrow> (nat \<Rightarrow> bool) \<Rightarrow> int \<Rightarrow> tables \<Rightarrow> tables result" where
  "create_loop threads ok tt tb =
     (if tt < threads then
        (if 0 \<le> tt \<and> tt < MAX_THREADS then
           create_loop threads ok (tt + 1)
             (if ok (nat tt) then tb\<lparr>tid := (tid tb)(nat tt \<mapsto> AtBarrier)\<rparr> else tb)
         else Undefined)
      else Ret tb)"
  by pat_completeness auto
termination
  by (relation "measure (\<lambda>(threads, ok, tt, tb). nat (threads - tt))") auto

text \<open>
  The threads that exist wait at the barrier, which \<open>pthread_barrier_init\<close> has set
  to \<open>threads\<close> arrivals (a count of 0 is refused, a negative one is a huge unsigned
  count). They go on when that many have arrived.
\<close>

definition live :: "tables \<Rightarrow> nat list" where
  "live tb = filter (\<lambda>tt. tid tb tt = Some AtBarrier) [0..<nat MAX_THREADS]"

definition barrier_opens :: "int \<Rightarrow> tables \<Rightarrow> bool" where
  "barrier_opens threads tb \<longleftrightarrow> 0 < threads \<and> int (length (live tb)) = threads"

text \<open>The workers run \<open>copy\<close>; the third component collects the accesses of each worker.\<close>

fun run_workers ::
  "(nat \<Rightarrow> real \<times> real) \<Rightarrow> nat list \<Rightarrow> tables \<times> mem \<times> (nat \<times> access list) list
     \<Rightarrow> (tables \<times> mem \<times> (nat \<times> access list) list) result option"
where
  "run_workers clk [] s = Some (Ret s)"
| "run_workers clk (tt # ws) (tb, m, wl) =
     (case info tb tt of
        None \<Rightarrow> Some Undefined
      | Some arg \<Rightarrow>
          (case copy arg (clk tt) m of
             None \<Rightarrow> None
           | Some Undefined \<Rightarrow> Some Undefined
           | Some Blocked \<Rightarrow> Some Blocked
           | Some (Ret (arg', m', acs)) \<Rightarrow>
               run_workers clk ws
                 (tb\<lparr>tid := (tid tb)(tt \<mapsto> Exited), info := (info tb)(tt \<mapsto> arg')\<rparr>,
                  m', wl @ [(tt, acs)])))"

text \<open>The join loop \<open>for (tt = 0 ; tt != threads ; ++tt)\<close>, which adds up \<open>info[tt].time\<close>.\<close>

function join_loop :: "int \<Rightarrow> int \<Rightarrow> tables \<Rightarrow> dbl \<Rightarrow> dbl result" where
  "join_loop threads tt tb t =
     (if tt \<noteq> threads then
        (if 0 \<le> tt \<and> tt < MAX_THREADS then
           (case tid tb (nat tt) of
              None \<Rightarrow> Undefined
            | Some AtBarrier \<Rightarrow> Blocked
            | Some Exited \<Rightarrow>
                (case info tb (nat tt) of
                   None \<Rightarrow> Undefined
                 | Some arg \<Rightarrow>
                     (case arg_time arg of
                        None \<Rightarrow> Undefined
                      | Some d \<Rightarrow> join_loop threads (tt + 1) tb (dadd t d))))
         else Undefined)
      else Ret t)"
  by pat_completeness auto
termination
  by (relation "measure (\<lambda>(threads, tt, tb, t). nat (MAX_THREADS - tt))") auto

text \<open>
  The body of the loop over \<open>k\<close>: \<open>times[0][k]=0\<close>, the three loops, and
  \<open>times[0][k] = times[0][k]/threads\<close>. The result is the time of the trial, the
  memory and the accesses of each worker.
\<close>

definition trial ::
  "int \<Rightarrow> int \<Rightarrow> tenv \<Rightarrow> mem \<Rightarrow> (dbl \<times> mem \<times> (nat \<times> access list) list) result option"
where
  "trial A threads env m =
     (case setup_loop A threads (aff_ok env) 0 no_tables of
        Undefined \<Rightarrow> Some Undefined
      | Blocked \<Rightarrow> Some Blocked
      | Ret tb1 \<Rightarrow>
     (case create_loop threads (create_ok env) 0 tb1 of
        Undefined \<Rightarrow> Some Undefined
      | Blocked \<Rightarrow> Some Blocked
      | Ret tb2 \<Rightarrow>
     (case (if barrier_opens threads tb2 then run_workers (clock env) (live tb2) (tb2, m, [])
            else Some (Ret (tb2, m, []))) of
        None \<Rightarrow> None
      | Some Undefined \<Rightarrow> Some Undefined
      | Some Blocked \<Rightarrow> Some Blocked
      | Some (Ret (tb3, m', wl)) \<Rightarrow>
     (case join_loop threads 0 tb3 (Num 0) of
        Undefined \<Rightarrow> Some Undefined
      | Blocked \<Rightarrow> Some Blocked
      | Ret t \<Rightarrow> Some (Ret (ddiv t (Num (real_of_int threads)), m', wl))))))"

subsection \<open>The trials, the summary and the report\<close>

text \<open>\<open>for (k=0; k<NTIMES; k++)\<close>; \<open>ts\<close> is the row \<open>times[0]\<close> filled so far.\<close>

function trials_loop ::
  "int \<Rightarrow> int \<Rightarrow> int \<Rightarrow> (nat \<Rightarrow> tenv) \<Rightarrow> int \<Rightarrow> dbl list \<Rightarrow> mem \<Rightarrow> (dbl list \<times> mem) result option"
where
  "trials_loop A N threads envs k ts m =
     (if k < N then
        (case trial A threads (envs (nat k)) m of
           None \<Rightarrow> None
         | Some Undefined \<Rightarrow> Some Undefined
         | Some Blocked \<Rightarrow> Some Blocked
         | Some (Ret (t, m', wl)) \<Rightarrow> trials_loop A N threads envs (k + 1) (ts @ [t]) m')
      else Some (Ret (ts, m)))"
  by pat_completeness auto
termination
  by (relation "measure (\<lambda>(A, N, threads, envs, k, ts, m). nat (N - k))") auto

record stats =
  avgtime :: dbl
  mintime :: dbl
  maxtime :: dbl

text \<open>The static initialisers of \<open>avgtime\<close>, \<open>maxtime\<close> and \<open>mintime\<close>.\<close>

definition stats0 :: stats where
  "stats0 = \<lparr>avgtime = Num 0, mintime = Num FLT_MAX, maxtime = Num 0\<rparr>"

text \<open>\<open>for (k=1; k<NTIMES; k++)\<close> over \<open>times[0]\<close>.\<close>

function summary_loop :: "int \<Rightarrow> int \<Rightarrow> dbl list \<Rightarrow> stats \<Rightarrow> stats" where
  "summary_loop N k ts st =
     (if k < N then
        summary_loop N (k + 1) ts
          (st\<lparr>avgtime := dadd (avgtime st) (ts ! nat k),
              mintime := MIN_d (mintime st) (ts ! nat k),
              maxtime := MAX_d (maxtime st) (ts ! nat k)\<rparr>)
      else st)"
  by pat_completeness auto
termination
  by (relation "measure (\<lambda>(N, k, ts, st). nat (N - k))") auto

text \<open>The summary loop followed by \<open>avgtime[j] = avgtime[j]/(double)(NTIMES-1)\<close>.\<close>

definition summary :: "int \<Rightarrow> dbl list \<Rightarrow> stats" where
  "summary N ts =
     (let st = summary_loop N 1 ts stats0
      in st\<lparr>avgtime := ddiv (avgtime st) (Num (real_of_int (N - 1)))\<rparr>)"

text \<open>The printed value \<open>1.0E-06 * bytes[j]/mintime[j]\<close>.\<close>

definition bandwidth :: "int \<Rightarrow> stats \<Rightarrow> dbl" where
  "bandwidth A st = ddiv (Num (1 / 1000000 * bytes A)) (mintime st)"

subsection \<open>The program\<close>

text \<open>
  What the environment decides in a run: whether each \<open>posix_memalign\<close> succeeds,
  what the fresh memory holds, and the environment of each trial.
\<close>

record env =
  alloc_ok :: "arr \<Rightarrow> bool"
  fresh :: "arr \<Rightarrow> nat \<Rightarrow> real"
  tenvs :: "nat \<Rightarrow> tenv"

definition alloc :: "int \<Rightarrow> env \<Rightarrow> arr \<Rightarrow> real list" where
  "alloc A e x = (if alloc_ok e x then map (fresh e x) [0..<nat A] else [])"

text \<open>\<open>for (j=0; j<STREAM_ARRAY_SIZE; j++) { a[j] = 1.0; b[j] = 2.0; }\<close>\<close>

function init_loop :: "int \<Rightarrow> int \<Rightarrow> mem \<Rightarrow> mem result" where
  "init_loop A j m =
     (if j < A then
        (if 0 \<le> j \<and> nat j < length (arr_a m) \<and> nat j < length (arr_b m) then
           init_loop A (j + 1) (m\<lparr>arr_a := (arr_a m)[nat j := 1], arr_b := (arr_b m)[nat j := 2]\<rparr>)
         else Undefined)
      else Ret m)"
  by pat_completeness auto
termination
  by (relation "measure (\<lambda>(A, j, m). nat (A - j))") auto

text \<open>
  \<open>main\<close>: allocation, initialisation, the trials, the summary and the one printed
  line (thread count and bandwidth). The result holds the printed line, the
  statistics and the final memory.
\<close>

definition main ::
  "int \<Rightarrow> int option \<Rightarrow> int \<Rightarrow> env \<Rightarrow> ((int \<times> dbl) \<times> stats \<times> mem) result option"
where
  "main A given threads e =
     (case init_loop A 0 \<lparr>arr_a = alloc A e ArrA, arr_b = alloc A e ArrB, arr_c = alloc A e ArrC\<rparr> of
        Undefined \<Rightarrow> Some Undefined
      | Blocked \<Rightarrow> Some Blocked
      | Ret m1 \<Rightarrow>
     (case trials_loop A (NTIMES given) threads (tenvs e) 0 [] m1 of
        None \<Rightarrow> None
      | Some Undefined \<Rightarrow> Some Undefined
      | Some Blocked \<Rightarrow> Some Blocked
      | Some (Ret (ts, m2)) \<Rightarrow>
          (let st = summary (NTIMES given) ts
           in Some (Ret ((threads, bandwidth A st), st, m2)))))"

subsection \<open>Notions used in the statements\<close>

text \<open>The interval that a worker measures, and the mean over the workers of a trial.\<close>

definition elapsed :: "tenv \<Rightarrow> nat \<Rightarrow> real" where
  "elapsed env i = snd (clock env i) - fst (clock env i)"

definition mean_elapsed :: "tenv \<Rightarrow> int \<Rightarrow> real" where
  "mean_elapsed env T = (\<Sum>i = 0..<nat T. elapsed env i) / real_of_int T"

text \<open>
  What \<open>mysecond\<close> can return: the seconds of a 64-bit \<open>time_t\<close> plus less than a
  second.
\<close>

definition clock_in_range :: "tenv \<Rightarrow> nat \<Rightarrow> bool" where
  "clock_in_range env i \<longleftrightarrow>
     \<bar>fst (clock env i)\<bar> \<le> 2 ^ 63 + 1 \<and> \<bar>snd (clock env i)\<bar> \<le> 2 ^ 63 + 1"

text \<open>The index and the array of an access, and whether it is a store.\<close>

fun acc_index :: "access \<Rightarrow> nat" where
  "acc_index (Rd x j) = j"
| "acc_index (Wr x j) = j"

fun acc_arr :: "access \<Rightarrow> arr" where
  "acc_arr (Rd x j) = x"
| "acc_arr (Wr x j) = x"

fun is_store :: "access \<Rightarrow> bool" where
  "is_store (Rd x j) = False"
| "is_store (Wr x j) = True"

text \<open>A small configuration on which the statements are instantiated.\<close>

definition tenv0 :: tenv where
  "tenv0 = \<lparr>aff_ok = (\<lambda>_. True), create_ok = (\<lambda>_. True), clock = (\<lambda>i. (0, 1 + real i))\<rparr>"

definition mem0 :: mem where
  "mem0 = \<lparr>arr_a = map real [0..<40], arr_b = replicate 40 0, arr_c = replicate 40 0\<rparr>"

definition env0 :: env where
  "env0 = \<lparr>alloc_ok = (\<lambda>_. True), fresh = (\<lambda>_ _. 7), tenvs = (\<lambda>k. tenv0)\<rparr>"

text \<open>The same configuration where creating worker 1 fails, and where no worker can be pinned.\<close>

definition env_create_fails :: env where
  "env_create_fails = env0\<lparr>tenvs := (\<lambda>k. tenv0\<lparr>create_ok := (\<lambda>i. i \<noteq> 1)\<rparr>)\<rparr>"



text \<open>
  The arrays as \<open>main\<close> initialises them when \<open>STREAM_ARRAY_SIZE\<close> is 6000000000, and
  what a trial leaves: an element of the source and of the destination array, and the
  accesses of one worker.
\<close>

definition mem6G :: mem where
  "mem6G = \<lparr>arr_a = replicate 6000000000 1, arr_b = replicate 6000000000 2,
            arr_c = replicate 6000000000 0\<rparr>"

definition src_after ::
  "(dbl \<times> mem \<times> (nat \<times> access list) list) result option \<Rightarrow> nat \<Rightarrow> real option" where
  "src_after r j = (case r of Some (Ret (t, m', wl)) \<Rightarrow> Some (arr_a m' ! j) | _ \<Rightarrow> None)"

definition dest_after ::
  "(dbl \<times> mem \<times> (nat \<times> access list) list) result option \<Rightarrow> nat \<Rightarrow> real option" where
  "dest_after r j = (case r of Some (Ret (t, m', wl)) \<Rightarrow> Some (arr_b m' ! j) | _ \<Rightarrow> None)"

definition accesses_of ::
  "(dbl \<times> mem \<times> (nat \<times> access list) list) result option \<Rightarrow> nat \<Rightarrow> access list" where
  "accesses_of r tt =
     (case r of Some (Ret (t, m', wl)) \<Rightarrow> concat (map snd (filter (\<lambda>p. fst p = tt) wl))
      | _ \<Rightarrow> [])"

declare setup_loop.simps [simp del]
declare create_loop.simps [simp del]
declare join_loop.simps [simp del]
declare trials_loop.simps [simp del]
declare summary_loop.simps [simp del]
declare init_loop.simps [simp del]

section \<open>Properties\<close>

subsection \<open>The chunk size\<close>


lemma and_not_15: "(x::int) AND NOT 15 = 16 * (x div 16)"
proof -
  have m: "(15::int) = mask 4" by (simp add: mask_eq_exp_minus_1)
  have "x AND NOT (mask 4) = push_bit 4 (drop_bit 4 x)"
    by (rule bit_eqI) (auto simp add: bit_simps)
  then show ?thesis by (simp add: m push_bit_eq_mult drop_bit_eq_div)
qed

lemma sdiv_nonneg: "0 \<le> A \<Longrightarrow> 0 < T \<Longrightarrow> A sdiv T = A div (T::int)"
  by (simp add: signed_divide_int_def sgn_if)

lemma uint_woi32: "0 \<le> k \<Longrightarrow> k < 2 ^ 32 \<Longrightarrow> uint (word_of_int k :: 32 word) = k"
  by (simp add: uint_word_of_int take_bit_int_eq_self)

lemma chunk_size_unat:
  assumes "0 \<le> A" "A < 2 ^ 32" "1 \<le> T"
  shows "unat (chunk_size A T) = 16 * (nat (A div T) div 16)"
proof -
  have d: "0 \<le> A div T" "A div T \<le> A" using assms
    using zdiv_mono2[of A 1 T] by (simp_all add: pos_imp_zdiv_nonneg_iff)
  have "0 \<le> 16 * (A div T div 16)" "16 * (A div T div 16) \<le> A div T" using d by auto
  hence r: "0 \<le> 16 * (A div T div 16)" "16 * (A div T div 16) < 2 ^ 32" using d assms by auto
  have "A sdiv T = A div T" using assms by (simp add: sdiv_nonneg)
  hence "chunk_size A T = word_of_int (16 * (A div T div 16))"
    by (simp only: chunk_size_def and_not_15)
  hence "uint (chunk_size A T) = 16 * (A div T div 16)"
    by (simp only: uint_woi32[OF r])
  hence "unat (chunk_size A T) = nat (16 * (A div T div 16))" by (simp add: unat_eq_nat_uint)
  also have "\<dots> = 16 * (nat (A div T) div 16)" using d
    by (simp add: nat_mult_distrib nat_div_distrib)
  finally show ?thesis .
qed

subsection \<open>The kernel loop\<close>


lemma load_nth:
  "p + 16 \<le> length xs \<Longrightarrow> l < 16 \<Longrightarrow> mm512_load_ps xs p ! l = xs ! (p + l)"
  by (simp add: mm512_load_ps_def)

lemma load_length: "p + 16 \<le> length xs \<Longrightarrow> length (mm512_load_ps xs p) = 16"
  by (simp add: mm512_load_ps_def)

lemma stream_length:
  "p + 16 \<le> length xs \<Longrightarrow> length v = 16 \<Longrightarrow> length (mm512_stream_ps xs p v) = length xs"
  by (simp add: mm512_stream_ps_def)

lemma stream_nth:
  "p + 16 \<le> length xs \<Longrightarrow> length v = 16 \<Longrightarrow> j < length xs \<Longrightarrow>
   mm512_stream_ps xs p v ! j = (if p \<le> j \<and> j < p + 16 then v ! (j - p) else xs ! j)"
  by (auto simp add: mm512_stream_ps_def nth_append)

lemma set_lanes: "set (lanes p) = {p..<p + 16}"
  by (simp add: lanes_def)

lemma copy_loop_run:
  assumes "unat i + 16 * n = unat sz"
    and "16 dvd pa + unat i" and "16 dvd pb + unat i"
    and "pa + unat sz \<le> length (arr_a m)" and "pb + unat sz \<le> length (arr_b m)"
  shows "\<exists>m' L'. copy_loop pa pb sz i (m, L) = Some (Ret (m', L'))
           \<and> arr_a m' = arr_a m \<and> length (arr_b m') = length (arr_b m)
           \<and> (\<forall>j < length (arr_b m). arr_b m' ! j =
                 (if pb + unat i \<le> j \<and> j < pb + unat sz then arr_a m ! (pa + (j - pb)) else arr_b m ! j))
           \<and> set L' = set L \<union> Rd ArrA ` {pa + unat i..<pa + unat sz} \<union> Wr ArrB ` {pb + unat i..<pb + unat sz}"
  using assms
proof (induction n arbitrary: i m L)
  case 0
  then have e: "unat i = unat sz" by simp
  then have "\<not> i < sz" by (simp add: word_less_nat_alt)
  then show ?case using e by (subst copy_loop.simps) simp
next
  case (Suc n)
  let ?a = "arr_a m" and ?b = "arr_b m"
  let ?v = "mm512_load_ps ?a (pa + unat i)"
  let ?b1 = "mm512_stream_ps ?b (pb + unat i) ?v"
  let ?m1 = "m\<lparr>arr_b := ?b1\<rparr>"
  let ?L1 = "L @ map (Rd ArrA) (lanes (pa + unat i)) @ map (Wr ArrB) (lanes (pb + unat i))"
  from Suc.prems have lt: "i < sz" by (simp add: word_less_nat_alt)
  have u: "unat (i + 16) = unat i + 16"
  proof -
    have "unat i + 16 \<le> unat sz" using Suc.prems(1) by simp
    moreover have "unat sz < 2 ^ 32" using unsigned_less[of sz, where ?'a=nat] by simp
    ultimately have "unat i + unat (16 :: 32 word) < 2 ^ LENGTH(32)" by simp
    then show ?thesis by (simp add: unat_add_lem[THEN iffD1])
  qed
  have ia: "pa + unat i + 16 \<le> length ?a" and ib: "pb + unat i + 16 \<le> length ?b"
    using Suc.prems by simp_all
  hence ok: "vec_ok ?a (pa + unat i)" "vec_ok ?b (pb + unat i)"
    using Suc.prems by (simp_all add: vec_ok_def)
  have lb1: "length ?b1 = length ?b" using ia ib by (simp add: stream_length load_length)
  have step: "copy_loop pa pb sz i (m, L) = copy_loop pa pb sz (i + 16) (?m1, ?L1)"
    using lt ok by (subst copy_loop.simps) simp
  have "\<exists>m' L'. copy_loop pa pb sz (i + 16) (?m1, ?L1) = Some (Ret (m', L'))
           \<and> arr_a m' = arr_a ?m1 \<and> length (arr_b m') = length (arr_b ?m1)
           \<and> (\<forall>j < length (arr_b ?m1). arr_b m' ! j =
                 (if pb + unat (i + 16) \<le> j \<and> j < pb + unat sz then arr_a ?m1 ! (pa + (j - pb)) else arr_b ?m1 ! j))
           \<and> set L' = set ?L1 \<union> Rd ArrA ` {pa + unat (i + 16)..<pa + unat sz} \<union> Wr ArrB ` {pb + unat (i + 16)..<pb + unat sz}"
  proof (intro Suc.IH)
    show "unat (i + 16) + 16 * n = unat sz" using Suc.prems(1) u by simp
    show "16 dvd pa + unat (i + 16)" using Suc.prems(2) unfolding u by presburger
    show "16 dvd pb + unat (i + 16)" using Suc.prems(3) unfolding u by presburger
    show "pa + unat sz \<le> length (arr_a ?m1)" using Suc.prems(4) by simp
    show "pb + unat sz \<le> length (arr_b ?m1)" using Suc.prems(5) lb1 by simp
  qed
  then obtain m' L' where r: "copy_loop pa pb sz (i + 16) (?m1, ?L1) = Some (Ret (m', L'))"
    and a': "arr_a m' = ?a" and l': "length (arr_b m') = length ?b"
    and n': "\<forall>j < length ?b. arr_b m' ! j =
                 (if pb + unat i + 16 \<le> j \<and> j < pb + unat sz then ?a ! (pa + (j - pb)) else ?b1 ! j)"
    and s': "set L' = set ?L1 \<union> Rd ArrA ` {pa + unat i + 16..<pa + unat sz} \<union> Wr ArrB ` {pb + unat i + 16..<pb + unat sz}"
    using u lb1 by (auto simp add: add.assoc)
  have nth1: "\<forall>j < length ?b. ?b1 ! j = (if pb + unat i \<le> j \<and> j < pb + unat i + 16 then ?a ! (pa + (j - pb)) else ?b ! j)"
  proof (intro allI impI)
    fix j assume j: "j < length ?b"
    show "?b1 ! j = (if pb + unat i \<le> j \<and> j < pb + unat i + 16 then ?a ! (pa + (j - pb)) else ?b ! j)"
    proof (cases "pb + unat i \<le> j \<and> j < pb + unat i + 16")
      case True
      then have "?b1 ! j = ?v ! (j - (pb + unat i))" using ib ia j by (simp add: stream_nth load_length)
      also have "\<dots> = ?a ! (pa + unat i + (j - (pb + unat i)))" using True ia by (intro load_nth) auto
      also have "pa + unat i + (j - (pb + unat i)) = pa + (j - pb)" using True by simp
      finally show ?thesis using True by simp
    next
      case False
      have "?b1 ! j = (if pb + unat i \<le> j \<and> j < pb + unat i + 16 then ?v ! (j - (pb + unat i)) else ?b ! j)"
        using ib ia j by (intro stream_nth) (simp_all add: load_length)
      with False show ?thesis by auto
    qed
  qed
  have nth: "\<forall>j < length ?b. arr_b m' ! j =
                 (if pb + unat i \<le> j \<and> j < pb + unat sz then ?a ! (pa + (j - pb)) else ?b ! j)"
    using n' nth1 Suc.prems(1) by auto
  have sets: "{pa + unat i..<pa + unat sz} = {pa + unat i..<pa + unat i + 16} \<union> {pa + unat i + 16..<pa + unat sz}"
     "{pb + unat i..<pb + unat sz} = {pb + unat i..<pb + unat i + 16} \<union> {pb + unat i + 16..<pb + unat sz}"
    using Suc.prems(1) by auto
  have "set L' = set L \<union> Rd ArrA ` {pa + unat i..<pa + unat sz} \<union> Wr ArrB ` {pb + unat i..<pb + unat sz}"
    unfolding s' sets by (auto simp add: set_lanes)
  with r a' l' nth step show ?case by simp
qed

subsection \<open>The work assignment and the loops over the workers\<close>

lemma chunk_size_dvd: "0 \<le> A \<Longrightarrow> A < 2 ^ 32 \<Longrightarrow> 1 \<le> T \<Longrightarrow> 16 dvd unat (chunk_size A T)"
  by (simp add: chunk_size_unat)

lemma chunk_total:
  assumes "0 \<le> A" "A < 2 ^ 32" "1 \<le> T"
  shows "nat T * unat (chunk_size A T) \<le> nat A"
proof -
  have "unat (chunk_size A T) \<le> nat (A div T)" using assms by (simp add: chunk_size_unat)
  hence "nat T * unat (chunk_size A T) \<le> nat T * nat (A div T)" by simp
  also have "\<dots> = nat (T * (A div T))" using assms by (simp add: nat_mult_distrib)
  also have "\<dots> \<le> nat A"
  proof -
    have "T * (A div T) + A mod T = A" by simp
    moreover have "0 \<le> A mod T" using assms by simp
    ultimately have "T * (A div T) \<le> A" by linarith
    then show ?thesis by simp
  qed
  finally show ?thesis .
qed

lemma assign_offset:
  assumes "0 \<le> A" "A < 2 ^ 32" "1 \<le> T" "0 \<le> tt" "tt < T"
  shows "unat (chunk_size A T * word_of_int tt) = nat tt * unat (chunk_size A T)"
proof (cases "chunk_size A T = 0")
  case True
  then show ?thesis by simp
next
  case False
  let ?S = "unat (chunk_size A T)"
  have pos: "0 < ?S" using False by (simp add: unat_gt_0)
  have tot: "nat T * ?S \<le> nat A" using assms by (intro chunk_total) simp_all
  have "nat tt * ?S \<le> nat T * ?S" using assms by (intro mult_right_mono) simp_all
  hence le: "nat tt * ?S \<le> nat A" using tot by (rule order_trans)
  have nA: "nat A < 2 ^ 32"
  proof -
    have "A < 2 ^ 32" using assms(2) by simp
    then show ?thesis using assms(1) by (simp add: nat_less_iff)
  qed
  have "nat tt * 1 \<le> nat tt * ?S" using pos by (intro mult_left_mono) simp_all
  hence "nat tt \<le> nat tt * ?S" by simp
  hence "nat tt \<le> nat A" using le by (rule order_trans)
  hence tb: "nat tt < 2 ^ 32" using nA by (rule le_less_trans)
  have utt: "unat (word_of_int tt :: 32 word) = nat tt"
    using assms tb uint_woi32[of tt] by (simp add: unat_eq_nat_uint)
  have "nat tt * ?S < 2 ^ 32" using le nA by (rule le_less_trans)
  hence "?S * nat tt < 2 ^ 32" by (simp add: mult.commute)
  hence "unat (chunk_size A T) * unat (word_of_int tt :: 32 word) < 2 ^ LENGTH(32)"
    using utt by simp
  hence "unat (chunk_size A T * word_of_int tt) = ?S * unat (word_of_int tt :: 32 word)"
    by (simp add: unat_mult_lem[THEN iffD1])
  then show ?thesis using utt by (simp add: mult.commute)
qed

lemma setup_loop_run:
  assumes "0 \<le> tt" "tt \<le> T" "T \<le> MAX_THREADS"
  shows "setup_loop A T aff tt tb =
     Ret (tb\<lparr>attr := (\<lambda>i. if nat tt \<le> i \<and> i < nat T
                          then Some (if aff i then Bound (get_cpu_id (int i)) else Unbound) else attr tb i),
            info := (\<lambda>i. if nat tt \<le> i \<and> i < nat T then Some (assign A T (int i)) else info tb i)\<rparr>)"
  using assms
proof (induction A T aff tt tb rule: setup_loop.induct)
  case (1 A threads aff tt tb)
  show ?case
  proof (cases "tt < threads")
    case True
    then have b: "0 \<le> tt \<and> tt < MAX_THREADS" using "1.prems" by simp
    have "setup_loop A threads aff tt tb = setup_loop A threads aff (tt + 1)
             (tb\<lparr>attr := (attr tb)(nat tt \<mapsto>
                     (if aff (nat tt) then Bound (get_cpu_id tt) else Unbound)),
                 info := (info tb)(nat tt \<mapsto> assign A threads tt)\<rparr>)"
      using True b by (subst setup_loop.simps) simp
    also have "\<dots> = Ret (tb\<lparr>attr := (\<lambda>i. if nat tt \<le> i \<and> i < nat threads
                          then Some (if aff i then Bound (get_cpu_id (int i)) else Unbound) else attr tb i),
            info := (\<lambda>i. if nat tt \<le> i \<and> i < nat threads then Some (assign A threads (int i)) else info tb i)\<rparr>)"
      using True b "1.prems" by (subst "1.IH") (auto simp add: fun_eq_iff nat_add_distrib intro!: arg_cong[where f=Ret])
    finally show ?thesis .
  next
    case False
    then have e: "tt = threads" using "1.prems" by simp
    have n: "\<And>i. (nat threads \<le> i \<and> i < nat threads) = False" by auto
    show ?thesis unfolding e by (subst setup_loop.simps) (simp add: n)
  qed
qed



lemma create_loop_run:
  assumes "0 \<le> tt" "tt \<le> T" "T \<le> MAX_THREADS"
  shows "create_loop T ok tt tb =
     Ret (tb\<lparr>tid := (\<lambda>i. if nat tt \<le> i \<and> i < nat T \<and> ok i then Some AtBarrier else tid tb i)\<rparr>)"
  using assms
proof (induction T ok tt tb rule: create_loop.induct)
  case (1 threads ok tt tb)
  show ?case
  proof (cases "tt < threads")
    case True
    then have b: "0 \<le> tt \<and> tt < MAX_THREADS" using "1.prems" by simp
    let ?tb1 = "if ok (nat tt) then tb\<lparr>tid := (tid tb)(nat tt \<mapsto> AtBarrier)\<rparr> else tb"
    have "create_loop threads ok tt tb = create_loop threads ok (tt + 1) ?tb1"
      using True b by (subst create_loop.simps) simp
    also have "\<dots> = Ret (?tb1\<lparr>tid := (\<lambda>i. if nat (tt + 1) \<le> i \<and> i < nat threads \<and> ok i then Some AtBarrier else tid ?tb1 i)\<rparr>)"
      using True b "1.prems" by (intro "1.IH") simp_all
    also have "(\<lambda>i. if nat (tt + 1) \<le> i \<and> i < nat threads \<and> ok i then Some AtBarrier else tid ?tb1 i)
         = (\<lambda>i. if nat tt \<le> i \<and> i < nat threads \<and> ok i then Some AtBarrier else tid tb i)"
    proof (rule ext)
      fix i
      show "(if nat (tt + 1) \<le> i \<and> i < nat threads \<and> ok i then Some AtBarrier else tid ?tb1 i)
         = (if nat tt \<le> i \<and> i < nat threads \<and> ok i then Some AtBarrier else tid tb i)"
      proof (cases "i = nat tt")
        case True
        moreover have "nat tt < nat threads" using \<open>tt < threads\<close> b by simp
        ultimately show ?thesis using b by (simp add: nat_add_distrib)
      next
        case False
        then have "(nat (tt + 1) \<le> i) = (nat tt \<le> i)" using b by (auto simp add: nat_add_distrib)
        then show ?thesis using False by simp
      qed
    qed
    also have "?tb1\<lparr>tid := (\<lambda>i. if nat tt \<le> i \<and> i < nat threads \<and> ok i then Some AtBarrier else tid tb i)\<rparr>
         = tb\<lparr>tid := (\<lambda>i. if nat tt \<le> i \<and> i < nat threads \<and> ok i then Some AtBarrier else tid tb i)\<rparr>"
      by simp
    finally show ?thesis .
  next
    case False
    then have e: "tt = threads" using "1.prems" by simp
    have n: "\<And>i. (nat threads \<le> i \<and> i < nat threads \<and> ok i) = False" by auto
    show ?thesis unfolding e by (subst create_loop.simps) (simp add: n)
  qed
qed

lemma join_loop_run:
  assumes "0 \<le> tt" "tt \<le> T" "T \<le> MAX_THREADS"
    and "\<forall>i. nat tt \<le> i \<and> i < nat T \<longrightarrow>
           tid tb i = Some Exited \<and> (\<exists>arg. info tb i = Some arg \<and> arg_time arg = Some (Num (d i)))"
  shows "join_loop T tt tb (Num acc) = Ret (Num (acc + sum d {nat tt..<nat T}))"
  using assms
proof (induction T tt tb "Num acc" arbitrary: acc rule: join_loop.induct)
  case (1 threads tt tb)
  show ?case
  proof (cases "tt = threads")
    case True
    then show ?thesis by (subst join_loop.simps) simp
  next
    case False
    then have lt: "tt < threads" using "1.prems" by simp
    then have b: "0 \<le> tt \<and> tt < MAX_THREADS" using "1.prems" by simp
    have "nat tt \<le> nat tt \<and> nat tt < nat threads" using lt "1.prems"(1) by simp
    then obtain arg where t: "tid tb (nat tt) = Some Exited"
      and i: "info tb (nat tt) = Some arg" and a: "arg_time arg = Some (Num (d (nat tt)))"
      using "1.prems"(4) by blast
    have "join_loop threads tt tb (Num acc) = join_loop threads (tt + 1) tb (Num (acc + d (nat tt)))"
      using False b t i a by (subst join_loop.simps) simp
    also have "\<dots> = Ret (Num (acc + d (nat tt) + sum d {nat (tt + 1)..<nat threads}))"
      using False b t i a "1.prems" lt by (intro "1.hyps") (auto simp add: nat_add_distrib)
    also have "acc + d (nat tt) + sum d {nat (tt + 1)..<nat threads} = acc + sum d {nat tt..<nat threads}"
    proof -
      have "nat tt < nat threads" using lt b by simp
      moreover have "nat (tt + 1) = Suc (nat tt)" using b by (simp add: nat_add_distrib)
      ultimately show ?thesis by (simp add: sum.atLeast_Suc_lessThan)
    qed
    finally show ?thesis .
  qed
qed

lemma filter_upt_less: "n \<le> k \<Longrightarrow> filter (\<lambda>i. i < n) [0..<k] = [0..<n]"
proof -
  assume "n \<le> k"
  then have "[0..<k] = [0..<n] @ [n..<k]" by (metis le0 upt_add_eq_append le_add_diff_inverse)
  then show ?thesis by simp
qed

subsection \<open>The workers\<close>

lemma copy_run:
  assumes "16 dvd unat (arg_size arg)" and "16 dvd arg_a arg" and "16 dvd arg_b arg"
    and "arg_a arg + unat (arg_size arg) \<le> length (arr_a m)"
    and "arg_b arg + unat (arg_size arg) \<le> length (arr_b m)"
  shows "\<exists>m' acs. copy arg clk m =
             Some (Ret (arg\<lparr>arg_time := Some (Num (snd clk - fst clk))\<rparr>, m', acs))
           \<and> arr_a m' = arr_a m \<and> length (arr_b m') = length (arr_b m)
           \<and> (\<forall>j < length (arr_b m). arr_b m' ! j =
                 (if arg_b arg \<le> j \<and> j < arg_b arg + unat (arg_size arg)
                  then arr_a m ! (arg_a arg + (j - arg_b arg)) else arr_b m ! j))
           \<and> set acs = Rd ArrA ` {arg_a arg..<arg_a arg + unat (arg_size arg)}
                      \<union> Wr ArrB ` {arg_b arg..<arg_b arg + unat (arg_size arg)}"
proof -
  from assms(1) obtain n where n: "unat (arg_size arg) = 16 * n" by (auto simp add: dvd_def)
  have "\<exists>m' L'. copy_loop (arg_a arg) (arg_b arg) (arg_size arg) 0 (m, []) = Some (Ret (m', L'))
           \<and> arr_a m' = arr_a m \<and> length (arr_b m') = length (arr_b m)
           \<and> (\<forall>j < length (arr_b m). arr_b m' ! j =
                 (if arg_b arg + unat (0 :: 32 word) \<le> j \<and> j < arg_b arg + unat (arg_size arg)
                  then arr_a m ! (arg_a arg + (j - arg_b arg)) else arr_b m ! j))
           \<and> set L' = set [] \<union> Rd ArrA ` {arg_a arg + unat (0 :: 32 word)..<arg_a arg + unat (arg_size arg)}
                      \<union> Wr ArrB ` {arg_b arg + unat (0 :: 32 word)..<arg_b arg + unat (arg_size arg)}"
    using assms n by (intro copy_loop_run[where n = n]) simp_all
  then obtain m' L' where
    "copy_loop (arg_a arg) (arg_b arg) (arg_size arg) 0 (m, []) = Some (Ret (m', L'))"
    "arr_a m' = arr_a m" "length (arr_b m') = length (arr_b m)"
    "\<forall>j < length (arr_b m). arr_b m' ! j =
                 (if arg_b arg \<le> j \<and> j < arg_b arg + unat (arg_size arg)
                  then arr_a m ! (arg_a arg + (j - arg_b arg)) else arr_b m ! j)"
    "set L' = Rd ArrA ` {arg_a arg..<arg_a arg + unat (arg_size arg)}
                      \<union> Wr ArrB ` {arg_b arg..<arg_b arg + unat (arg_size arg)}"
    by auto
  then show ?thesis by (simp add: copy_def)
qed

lemma run_workers_run:
  assumes "distinct ws" and "16 dvd S"
    and "\<forall>tt\<in>set ws. \<exists>arg. info tb tt = Some arg \<and> arg_a arg = off tt \<and> arg_b arg = off tt
            \<and> unat (arg_size arg) = S"
    and "\<forall>tt\<in>set ws. 16 dvd off tt \<and> off tt + S \<le> length (arr_a m) \<and> off tt + S \<le> length (arr_b m)"
  shows "\<exists>tb' m' wl2. run_workers clk ws (tb, m, wl) = Some (Ret (tb', m', wl @ wl2))
      \<and> arr_a m' = arr_a m \<and> length (arr_b m') = length (arr_b m)
      \<and> (\<forall>j < length (arr_b m). arr_b m' ! j =
            (if \<exists>tt\<in>set ws. off tt \<le> j \<and> j < off tt + S then arr_a m ! j else arr_b m ! j))
      \<and> (\<forall>i. tid tb' i = (if i \<in> set ws then Some Exited else tid tb i))
      \<and> (\<forall>i. info tb' i = (if i \<in> set ws
              then map_option (\<lambda>arg. arg\<lparr>arg_time := Some (Num (snd (clk i) - fst (clk i)))\<rparr>) (info tb i)
              else info tb i))
      \<and> map fst wl2 = ws
      \<and> (\<forall>(tt, acs)\<in>set wl2. set acs = Rd ArrA ` {off tt..<off tt + S} \<union> Wr ArrB ` {off tt..<off tt + S})"
  using assms
proof (induction ws arbitrary: tb m wl)
  case Nil
  then show ?case by simp
next
  case (Cons tt ws)
  from Cons.prems(3) obtain arg where i: "info tb tt = Some arg" and a: "arg_a arg = off tt"
    and b: "arg_b arg = off tt" and s: "unat (arg_size arg) = S" by auto
  let ?arg' = "arg\<lparr>arg_time := Some (Num (snd (clk tt) - fst (clk tt)))\<rparr>"
  have "\<exists>m1 acs. copy arg (clk tt) m = Some (Ret (?arg', m1, acs))
           \<and> arr_a m1 = arr_a m \<and> length (arr_b m1) = length (arr_b m)
           \<and> (\<forall>j < length (arr_b m). arr_b m1 ! j =
                 (if arg_b arg \<le> j \<and> j < arg_b arg + unat (arg_size arg)
                  then arr_a m ! (arg_a arg + (j - arg_b arg)) else arr_b m ! j))
           \<and> set acs = Rd ArrA ` {arg_a arg..<arg_a arg + unat (arg_size arg)}
                      \<union> Wr ArrB ` {arg_b arg..<arg_b arg + unat (arg_size arg)}"
    using Cons.prems(2,4) a b s by (intro copy_run) simp_all
  then obtain m1 acs where c: "copy arg (clk tt) m = Some (Ret (?arg', m1, acs))"
    and a1: "arr_a m1 = arr_a m" and l1: "length (arr_b m1) = length (arr_b m)"
    and n1: "\<forall>j < length (arr_b m). arr_b m1 ! j =
                 (if off tt \<le> j \<and> j < off tt + S then arr_a m ! j else arr_b m ! j)"
    and s1: "set acs = Rd ArrA ` {off tt..<off tt + S} \<union> Wr ArrB ` {off tt..<off tt + S}"
    using a b s by auto
  let ?tb1 = "tb\<lparr>tid := (tid tb)(tt \<mapsto> Exited), info := (info tb)(tt \<mapsto> ?arg')\<rparr>"
  have step: "run_workers clk (tt # ws) (tb, m, wl) = run_workers clk ws (?tb1, m1, wl @ [(tt, acs)])"
    using i c by simp
  have "\<exists>tb' m' wl2. run_workers clk ws (?tb1, m1, wl @ [(tt, acs)]) = Some (Ret (tb', m', (wl @ [(tt, acs)]) @ wl2))
      \<and> arr_a m' = arr_a m1 \<and> length (arr_b m') = length (arr_b m1)
      \<and> (\<forall>j < length (arr_b m1). arr_b m' ! j =
            (if \<exists>tt\<in>set ws. off tt \<le> j \<and> j < off tt + S then arr_a m1 ! j else arr_b m1 ! j))
      \<and> (\<forall>i. tid tb' i = (if i \<in> set ws then Some Exited else tid ?tb1 i))
      \<and> (\<forall>i. info tb' i = (if i \<in> set ws
              then map_option (\<lambda>arg. arg\<lparr>arg_time := Some (Num (snd (clk i) - fst (clk i)))\<rparr>) (info ?tb1 i)
              else info ?tb1 i))
      \<and> map fst wl2 = ws
      \<and> (\<forall>(tt, acs)\<in>set wl2. set acs = Rd ArrA ` {off tt..<off tt + S} \<union> Wr ArrB ` {off tt..<off tt + S})"
    using Cons.prems a1 l1 by (intro Cons.IH) auto
  then obtain tb' m' wl2 where
    r0: "run_workers clk ws (?tb1, m1, wl @ [(tt, acs)]) = Some (Ret (tb', m', (wl @ [(tt, acs)]) @ wl2))"
    and a0: "arr_a m' = arr_a m1" and l0: "length (arr_b m') = length (arr_b m1)"
    and n0: "\<forall>j < length (arr_b m1). arr_b m' ! j =
            (if \<exists>tt\<in>set ws. off tt \<le> j \<and> j < off tt + S then arr_a m1 ! j else arr_b m1 ! j)"
    and t': "\<forall>i. tid tb' i = (if i \<in> set ws then Some Exited else tid ?tb1 i)"
    and i': "\<forall>i. info tb' i = (if i \<in> set ws
              then map_option (\<lambda>arg. arg\<lparr>arg_time := Some (Num (snd (clk i) - fst (clk i)))\<rparr>) (info ?tb1 i)
              else info ?tb1 i)"
    and f': "map fst wl2 = ws"
    and w': "\<forall>(tt, acs)\<in>set wl2. set acs = Rd ArrA ` {off tt..<off tt + S} \<union> Wr ArrB ` {off tt..<off tt + S}"
    by (elim exE conjE)
  have r: "run_workers clk ws (?tb1, m1, wl @ [(tt, acs)]) = Some (Ret (tb', m', wl @ ((tt, acs) # wl2)))"
    using r0 by simp
  have a': "arr_a m' = arr_a m" using a0 a1 by simp
  have l': "length (arr_b m') = length (arr_b m)" using l0 l1 by simp
  have n': "\<forall>j < length (arr_b m). arr_b m' ! j =
            (if \<exists>tt\<in>set ws. off tt \<le> j \<and> j < off tt + S then arr_a m ! j else arr_b m1 ! j)"
    using n0 unfolding a1 l1 .
  have nth: "\<forall>j < length (arr_b m). arr_b m' ! j =
            (if \<exists>x\<in>set (tt # ws). off x \<le> j \<and> j < off x + S then arr_a m ! j else arr_b m ! j)"
    using n' n1 by auto
  have tids: "\<forall>i. tid tb' i = (if i \<in> set (tt # ws) then Some Exited else tid tb i)"
    using t' by auto
  have infos: "\<forall>i. info tb' i = (if i \<in> set (tt # ws)
              then map_option (\<lambda>arg. arg\<lparr>arg_time := Some (Num (snd (clk i) - fst (clk i)))\<rparr>) (info tb i)
              else info tb i)"
    using i' i Cons.prems(1) by auto
  have fm: "map fst ((tt, acs) # wl2) = tt # ws" using f' by simp
  have ws: "\<forall>(tt, acs)\<in>set ((tt, acs) # wl2). set acs = Rd ArrA ` {off tt..<off tt + S} \<union> Wr ArrB ` {off tt..<off tt + S}"
    using w' s1 by simp
  have res: "run_workers clk (tt # ws) (tb, m, wl) = Some (Ret (tb', m', wl @ ((tt, acs) # wl2)))"
    using step r by simp
  show ?case
    by (rule exI[of _ tb'], rule exI[of _ m'], rule exI[of _ "(tt, acs) # wl2"])
       (intro conjI res a' l' nth tids infos fm ws)
qed

subsection \<open>One trial\<close>

lemma filter_upt_eq:
  assumes "n \<le> k" and "\<forall>i<k. P i = (i < n)"
  shows "filter P [0..<k] = [0..<n]"
proof -
  have "filter P [0..<k] = filter (\<lambda>i. i < n) [0..<k]"
    using assms(2) by (intro filter_cong) auto
  then show ?thesis using assms(1) by (simp add: filter_upt_less)
qed

lemma in_some_chunk:
  "(\<exists>tt\<in>set [0..<n]. tt * S \<le> j \<and> j < tt * S + S) \<longleftrightarrow> j < n * (S::nat)"
proof
  assume "\<exists>tt\<in>set [0..<n]. tt * S \<le> j \<and> j < tt * S + S"
  then obtain tt where t: "tt < n" "j < tt * S + S" by auto
  have "tt * S + S = Suc tt * S" by simp
  also have "\<dots> \<le> n * S" using t(1) by (intro mult_right_mono) simp_all
  finally show "j < n * S" using t(2) by simp
next
  assume a: "j < n * S"
  then have pos: "0 < S" by (cases S) simp_all
  have 1: "j div S < n" using a pos by (simp add: less_mult_imp_div_less)
  have 2: "j div S * S \<le> j" by simp
  have 3: "j < j div S * S + S" using pos
    by (metis add.commute div_mult_mod_eq add_less_cancel_left mod_less_divisor)
  have "j div S \<in> set [0..<n]" using 1 by simp
  then show "\<exists>tt\<in>set [0..<n]. tt * S \<le> j \<and> j < tt * S + S" using 2 3 by (intro bexI[of _ "j div S"] conjI)
qed

text \<open>
  One trial in which every worker is created, for any offsets \<open>off tt\<close> that the
  products \<open>size*tt\<close> give, as long as each is a multiple of 16 and each view lies
  in the arrays.
\<close>

lemma trial_run_off:
  assumes T: "1 \<le> T" "T \<le> MAX_THREADS"
    and ok: "\<forall>i<nat T. create_ok env i"
    and la: "length (arr_a m) = nat A" and lb: "length (arr_b m) = nat A"
    and S: "S = unat (chunk_size A T)" and dv: "16 dvd S"
    and off: "\<forall>tt<nat T. unat (chunk_size A T * word_of_int (int tt)) = off tt
                \<and> 16 dvd off tt \<and> off tt + S \<le> nat A"
  shows "\<exists>m' wl. trial A T env m =
           Some (Ret (Num ((\<Sum>i = 0..<nat T. snd (clock env i) - fst (clock env i)) / real_of_int T), m', wl))
     \<and> arr_a m' = arr_a m \<and> length (arr_b m') = length (arr_b m)
     \<and> (\<forall>j<nat A. arr_b m' ! j =
           (if \<exists>tt\<in>set [0..<nat T]. off tt \<le> j \<and> j < off tt + S then arr_a m ! j else arr_b m ! j))
     \<and> map fst wl = [0..<nat T]
     \<and> (\<forall>(tt, acs)\<in>set wl. set acs = Rd ArrA ` {off tt..<off tt + S} \<union> Wr ArrB ` {off tt..<off tt + S})"
proof -
  let ?d = "\<lambda>i. snd (clock env i) - fst (clock env i)"
  define tb1 where "tb1 = no_tables\<lparr>attr := (\<lambda>i. if nat 0 \<le> i \<and> i < nat T
                          then Some (if aff_ok env i then Bound (get_cpu_id (int i)) else Unbound) else attr no_tables i),
            info := (\<lambda>i. if nat 0 \<le> i \<and> i < nat T then Some (assign A T (int i)) else info no_tables i)\<rparr>"
  have s1: "setup_loop A T (aff_ok env) 0 no_tables = Ret tb1"
    unfolding tb1_def using T by (intro setup_loop_run) simp_all
  define tb2 where "tb2 = tb1\<lparr>tid := (\<lambda>i. if nat 0 \<le> i \<and> i < nat T \<and> create_ok env i then Some AtBarrier else tid tb1 i)\<rparr>"
  have s2: "create_loop T (create_ok env) 0 tb1 = Ret tb2"
    unfolding tb2_def using T by (intro create_loop_run) simp_all
  have tid2: "\<And>i. tid tb2 i = (if i < nat T then Some AtBarrier else None)"
    using ok by (simp add: tb2_def tb1_def no_tables_def)
  have info2: "\<And>i. info tb2 i = (if i < nat T then Some (assign A T (int i)) else None)"
    by (simp add: tb2_def tb1_def no_tables_def)
  have nT: "nat T \<le> nat MAX_THREADS" using T by simp
  have lv: "live tb2 = [0..<nat T]"
    unfolding live_def using nT by (intro filter_upt_eq) (simp_all add: tid2)
  have bo: "barrier_opens T tb2" using T by (simp add: barrier_opens_def lv)
  have fit: "\<And>tt. tt < nat T \<Longrightarrow> off tt + S \<le> nat A" using off by simp
  have al: "\<And>tt. tt < nat T \<Longrightarrow> 16 dvd off tt" using off by simp
  have asg: "\<And>tt. tt < nat T \<Longrightarrow> arg_a (assign A T (int tt)) = off tt
       \<and> arg_b (assign A T (int tt)) = off tt \<and> unat (arg_size (assign A T (int tt))) = S"
  proof -
    fix tt assume "tt < nat T"
    then have "unat (chunk_size A T * word_of_int (int tt)) = off tt"
      using off by simp
    then show "arg_a (assign A T (int tt)) = off tt
       \<and> arg_b (assign A T (int tt)) = off tt \<and> unat (arg_size (assign A T (int tt))) = S"
      by (simp add: assign_def Let_def S)
  qed
  have "\<exists>tb' m' wl2. run_workers (clock env) [0..<nat T] (tb2, m, []) = Some (Ret (tb', m', [] @ wl2))
      \<and> arr_a m' = arr_a m \<and> length (arr_b m') = length (arr_b m)
      \<and> (\<forall>j < length (arr_b m). arr_b m' ! j =
            (if \<exists>tt\<in>set [0..<nat T]. off tt \<le> j \<and> j < off tt + S then arr_a m ! j else arr_b m ! j))
      \<and> (\<forall>i. tid tb' i = (if i \<in> set [0..<nat T] then Some Exited else tid tb2 i))
      \<and> (\<forall>i. info tb' i = (if i \<in> set [0..<nat T]
              then map_option (\<lambda>arg. arg\<lparr>arg_time := Some (Num (snd (clock env i) - fst (clock env i)))\<rparr>) (info tb2 i)
              else info tb2 i))
      \<and> map fst wl2 = [0..<nat T]
      \<and> (\<forall>(tt, acs)\<in>set wl2. set acs = Rd ArrA ` {off tt..<off tt + S} \<union> Wr ArrB ` {off tt..<off tt + S})"
    using dv asg fit al la lb by (intro run_workers_run) (simp_all add: info2)
  then obtain tb3 m' wl where
    r3: "run_workers (clock env) [0..<nat T] (tb2, m, []) = Some (Ret (tb3, m', [] @ wl))"
    and a3: "arr_a m' = arr_a m" and l3: "length (arr_b m') = length (arr_b m)"
    and n3: "\<forall>j < length (arr_b m). arr_b m' ! j =
            (if \<exists>tt\<in>set [0..<nat T]. off tt \<le> j \<and> j < off tt + S then arr_a m ! j else arr_b m ! j)"
    and t3: "\<forall>i. tid tb3 i = (if i \<in> set [0..<nat T] then Some Exited else tid tb2 i)"
    and i3: "\<forall>i. info tb3 i = (if i \<in> set [0..<nat T]
              then map_option (\<lambda>arg. arg\<lparr>arg_time := Some (Num (snd (clock env i) - fst (clock env i)))\<rparr>) (info tb2 i)
              else info tb2 i)"
    and f3: "map fst wl = [0..<nat T]"
    and w3: "\<forall>(tt, acs)\<in>set wl. set acs = Rd ArrA ` {off tt..<off tt + S} \<union> Wr ArrB ` {off tt..<off tt + S}"
    by (elim exE conjE)
  have n4: "\<forall>j<nat A. arr_b m' ! j =
           (if \<exists>tt\<in>set [0..<nat T]. off tt \<le> j \<and> j < off tt + S then arr_a m ! j else arr_b m ! j)"
    using n3 unfolding lb .
  have j4: "join_loop T 0 tb3 (Num 0) = Ret (Num (0 + sum ?d {nat 0..<nat T}))"
    using T by (intro join_loop_run) (simp_all add: t3 i3 info2)
  have "T \<noteq> 0" using T by simp
  hence dd: "ddiv (Num (sum ?d {0..<nat T})) (Num (real_of_int T)) = Num (sum ?d {0..<nat T} / real_of_int T)"
    by simp
  have res: "trial A T env m = Some (Ret (Num (sum ?d {0..<nat T} / real_of_int T), m', wl))"
    using s1 s2 bo lv r3 j4 dd by (simp add: trial_def)
  show ?thesis
    by (rule exI[of _ m'], rule exI[of _ wl]) (intro conjI res a3 l3 n4 f3 w3)
qed

text \<open>
  For an array length below \<open>2\<^sup>3\<^sup>2\<close> no product \<open>size*tt\<close> wraps around: worker
  \<open>tt\<close> works at offset \<open>tt * S\<close>.
\<close>

lemma trial_run:
  assumes A: "0 \<le> A" "A < 2 ^ 32" and T: "1 \<le> T" "T \<le> MAX_THREADS"
    and ok: "\<forall>i<nat T. create_ok env i"
    and la: "length (arr_a m) = nat A" and lb: "length (arr_b m) = nat A"
    and S: "S = unat (chunk_size A T)"
  shows "\<exists>m' wl. trial A T env m =
           Some (Ret (Num ((\<Sum>i = 0..<nat T. snd (clock env i) - fst (clock env i)) / real_of_int T), m', wl))
     \<and> arr_a m' = arr_a m \<and> length (arr_b m') = length (arr_b m)
     \<and> (\<forall>j<nat A. arr_b m' ! j = (if j < nat T * S then arr_a m ! j else arr_b m ! j))
     \<and> map fst wl = [0..<nat T]
     \<and> (\<forall>(tt, acs)\<in>set wl. set acs = Rd ArrA ` {tt * S..<tt * S + S} \<union> Wr ArrB ` {tt * S..<tt * S + S})"
proof -
  have dv: "16 dvd S" using A T S by (simp add: chunk_size_dvd)
  have tot: "nat T * S \<le> nat A" using A T S by (simp add: chunk_total)
  have off: "\<forall>tt<nat T. unat (chunk_size A T * word_of_int (int tt)) = tt * S
                \<and> 16 dvd tt * S \<and> tt * S + S \<le> nat A"
  proof (intro allI impI conjI)
    fix tt assume tt: "tt < nat T"
    have "unat (chunk_size A T * word_of_int (int tt)) = nat (int tt) * unat (chunk_size A T)"
      using A T tt by (intro assign_offset) simp_all
    then show "unat (chunk_size A T * word_of_int (int tt)) = tt * S" by (simp add: S)
    show "16 dvd tt * S" using dv by simp
    have "Suc tt * S \<le> nat T * S" using tt by (intro mult_right_mono) simp_all
    then show "tt * S + S \<le> nat A" using tot by simp
  qed
  have "\<exists>m' wl. trial A T env m =
           Some (Ret (Num ((\<Sum>i = 0..<nat T. snd (clock env i) - fst (clock env i)) / real_of_int T), m', wl))
     \<and> arr_a m' = arr_a m \<and> length (arr_b m') = length (arr_b m)
     \<and> (\<forall>j<nat A. arr_b m' ! j =
           (if \<exists>tt\<in>set [0..<nat T]. tt * S \<le> j \<and> j < tt * S + S then arr_a m ! j else arr_b m ! j))
     \<and> map fst wl = [0..<nat T]
     \<and> (\<forall>(tt, acs)\<in>set wl. set acs = Rd ArrA ` {tt * S..<tt * S + S} \<union> Wr ArrB ` {tt * S..<tt * S + S})"
    using T ok la lb S dv off by (rule trial_run_off)
  then show ?thesis unfolding in_some_chunk .
qed

text \<open>Nothing writes to the array \<open>c\<close>.\<close>

lemma copy_loop_arr_c_aux:
  assumes "copy_loop pa pb sz i s = Some y"
  shows "\<forall>s'. y = Ret s' \<longrightarrow> arr_c (fst s') = arr_c (fst s)"
proof (rule copy_loop.raw_induct[where P = "\<lambda>pa pb sz i s y. \<forall>s'. y = Ret s' \<longrightarrow> arr_c (fst s') = arr_c (fst s)", OF _ assms])
  fix cl :: "nat \<Rightarrow> nat \<Rightarrow> 32 word \<Rightarrow> 32 word \<Rightarrow> mem \<times> access list \<Rightarrow> (mem \<times> access list) result option"
    and pa pb sz i s y
  assume IH: "\<And>pa pb sz i s y. cl pa pb sz i s = Some y \<Longrightarrow>
                 \<forall>s'. y = Ret s' \<longrightarrow> arr_c (fst s') = arr_c (fst s)"
    and eq: "(if i < sz then
        (if vec_ok (arr_a (fst s)) (pa + unat i) \<and> vec_ok (arr_b (fst s)) (pb + unat i) then
           cl pa pb sz (i + 16)
             ((fst s)\<lparr>arr_b := mm512_stream_ps (arr_b (fst s)) (pb + unat i)
                                  (mm512_load_ps (arr_a (fst s)) (pa + unat i))\<rparr>,
              snd s @ map (Rd ArrA) (lanes (pa + unat i)) @ map (Wr ArrB) (lanes (pb + unat i)))
         else Some Undefined)
      else Some (Ret s)) = Some y"
  show "\<forall>s'. y = Ret s' \<longrightarrow> arr_c (fst s') = arr_c (fst s)"
  proof (cases "i < sz \<and> vec_ok (arr_a (fst s)) (pa + unat i) \<and> vec_ok (arr_b (fst s)) (pb + unat i)")
    case True
    then have "cl pa pb sz (i + 16)
             ((fst s)\<lparr>arr_b := mm512_stream_ps (arr_b (fst s)) (pb + unat i)
                                  (mm512_load_ps (arr_a (fst s)) (pa + unat i))\<rparr>,
              snd s @ map (Rd ArrA) (lanes (pa + unat i)) @ map (Wr ArrB) (lanes (pb + unat i))) = Some y"
      using eq by simp
    from IH[OF this] show ?thesis by simp
  next
    case False
    then show ?thesis using eq by (auto split: if_splits)
  qed
qed

lemma copy_loop_arr_c:
  "copy_loop pa pb sz i s = Some (Ret s') \<Longrightarrow> arr_c (fst s') = arr_c (fst s)"
  using copy_loop_arr_c_aux by blast

lemma copy_arr_c:
  "copy arg clk m = Some (Ret (arg', m', acs)) \<Longrightarrow> arr_c m' = arr_c m"
  using copy_loop_arr_c[of "arg_a arg" "arg_b arg" "arg_size arg" 0 "(m, [])"]
  by (auto simp add: copy_def split: option.splits result.splits)

lemma run_workers_arr_c:
  "run_workers clk ws (tb, m, wl) = Some (Ret (tb', m', wl')) \<Longrightarrow> arr_c m' = arr_c m"
proof (induction ws arbitrary: tb m wl)
  case Nil
  then show ?case by simp
next
  case (Cons tt ws)
  then show ?case
    by (auto split: option.splits result.splits dest!: copy_arr_c)
qed

lemma trial_arr_c:
  "trial A T env m = Some (Ret (t, m', wl)) \<Longrightarrow> arr_c m' = arr_c m"
  by (auto simp add: trial_def split: option.splits result.splits if_splits dest!: run_workers_arr_c)

text \<open>
  The order in which the workers run has no influence on the memory after the trial:
  any order of the workers \<open>0, \<dots>, n - 1\<close> gives the same arrays.
\<close>

lemma run_workers_any_order:
  assumes "distinct ws" and "set ws = {0..<n}" and "16 dvd S"
    and "\<forall>tt<n. \<exists>arg. info tb tt = Some arg \<and> arg_a arg = tt * S \<and> arg_b arg = tt * S
            \<and> unat (arg_size arg) = S"
    and "n * S \<le> length (arr_a m)" and "n * S \<le> length (arr_b m)"
  shows "\<exists>tb' m' wl. run_workers clk ws (tb, m, []) = Some (Ret (tb', m', wl))
      \<and> arr_a m' = arr_a m
      \<and> arr_b m' = map (\<lambda>j. if j < n * S then arr_a m ! j else arr_b m ! j) [0..<length (arr_b m)]"
proof -
  have fit: "\<forall>tt\<in>set ws. 16 dvd tt * S \<and> tt * S + S \<le> length (arr_a m) \<and> tt * S + S \<le> length (arr_b m)"
  proof
    fix tt assume "tt \<in> set ws"
    then have "tt < n" using assms(2) by simp
    then have "Suc tt * S \<le> n * S" by (intro mult_right_mono) simp_all
    then show "16 dvd tt * S \<and> tt * S + S \<le> length (arr_a m) \<and> tt * S + S \<le> length (arr_b m)"
      using assms(3,5,6) by simp
  qed
  have inf: "\<forall>tt\<in>set ws. \<exists>arg. info tb tt = Some arg \<and> arg_a arg = tt * S \<and> arg_b arg = tt * S
            \<and> unat (arg_size arg) = S"
    using assms(2,4) by simp
  obtain tb' m' wl where r: "run_workers clk ws (tb, m, []) = Some (Ret (tb', m', [] @ wl))"
    and a: "arr_a m' = arr_a m" and l: "length (arr_b m') = length (arr_b m)"
    and n: "\<forall>j < length (arr_b m). arr_b m' ! j =
            (if \<exists>tt\<in>set ws. tt * S \<le> j \<and> j < tt * S + S then arr_a m ! j else arr_b m ! j)"
    using run_workers_run[OF assms(1,3) inf fit, where clk = clk and wl = "[]"] by blast
  have "set ws = set [0..<n]" using assms(2) by simp
  hence n': "\<forall>j < length (arr_b m). arr_b m' ! j = (if j < n * S then arr_a m ! j else arr_b m ! j)"
    using n by (simp only: in_some_chunk)
  have "arr_b m' = map (\<lambda>j. if j < n * S then arr_a m ! j else arr_b m ! j) [0..<length (arr_b m)]"
    using l n' by (intro nth_equalityI) simp_all
  with r a show ?thesis by auto
qed

subsection \<open>Initialisation and the degenerate trials\<close>

lemma init_loop_run:
  assumes "0 \<le> j" "j \<le> A" "length (arr_a m) = nat A" "length (arr_b m) = nat A"
  shows "init_loop A j m =
     Ret \<lparr>arr_a = take (nat j) (arr_a m) @ replicate (nat A - nat j) 1,
          arr_b = take (nat j) (arr_b m) @ replicate (nat A - nat j) 2,
          arr_c = arr_c m\<rparr>"
  using assms
proof (induction A j m rule: init_loop.induct)
  case (1 A j m)
  show ?case
  proof (cases "j < A")
    case True
    let ?m1 = "m\<lparr>arr_a := (arr_a m)[nat j := 1], arr_b := (arr_b m)[nat j := 2]\<rparr>"
    have b: "0 \<le> j \<and> nat j < length (arr_a m) \<and> nat j < length (arr_b m)"
      using True "1.prems" by simp
    have "init_loop A j m = init_loop A (j + 1) ?m1"
      using True b by (subst init_loop.simps) simp
    also have "\<dots> = Ret \<lparr>arr_a = take (nat (j + 1)) (arr_a ?m1) @ replicate (nat A - nat (j + 1)) 1,
          arr_b = take (nat (j + 1)) (arr_b ?m1) @ replicate (nat A - nat (j + 1)) 2,
          arr_c = arr_c ?m1\<rparr>"
      using True b "1.prems" by (intro "1.IH") simp_all
    also have "arr_c ?m1 = arr_c m" by simp
    also have "nat (j + 1) = Suc (nat j)" using b by (simp add: nat_add_distrib)
    also have "take (Suc (nat j)) (arr_a ?m1) @ replicate (nat A - Suc (nat j)) 1
        = take (nat j) (arr_a m) @ replicate (nat A - nat j) 1"
    proof -
      have "nat j < nat A" using b "1.prems" by simp
      then have "nat A - nat j = Suc (nat A - Suc (nat j))" by (rule Suc_diff_Suc[symmetric])
      then show ?thesis using b by (simp add: take_Suc_conv_app_nth)
    qed
    also have "take (Suc (nat j)) (arr_b ?m1) @ replicate (nat A - Suc (nat j)) 2
        = take (nat j) (arr_b m) @ replicate (nat A - nat j) 2"
    proof -
      have "nat j < nat A" using b "1.prems" by simp
      then have "nat A - nat j = Suc (nat A - Suc (nat j))" by (rule Suc_diff_Suc[symmetric])
      then show ?thesis using b by (simp add: take_Suc_conv_app_nth)
    qed
    finally show ?thesis .
  next
    case False
    then have "j = A" using "1.prems" by simp
    then show ?thesis using "1.prems" by (subst init_loop.simps) (cases m, simp)
  qed
qed

lemma init_loop_unset:
  assumes "0 < A" "arr_a m = [] \<or> arr_b m = []"
  shows "init_loop A 0 m = Undefined"
  using assms by (subst init_loop.simps) auto




lemma trial_create_failure:
  assumes T: "1 \<le> T" "T \<le> MAX_THREADS" and f: "f < nat T" "\<not> create_ok env f"
  shows "trial A T env m = Some (if create_ok env 0 then Blocked else Undefined)"
proof -
  define tb1 where "tb1 = no_tables\<lparr>attr := (\<lambda>i. if nat 0 \<le> i \<and> i < nat T
                          then Some (if aff_ok env i then Bound (get_cpu_id (int i)) else Unbound) else attr no_tables i),
            info := (\<lambda>i. if nat 0 \<le> i \<and> i < nat T then Some (assign A T (int i)) else info no_tables i)\<rparr>"
  have s1: "setup_loop A T (aff_ok env) 0 no_tables = Ret tb1"
    unfolding tb1_def using T by (intro setup_loop_run) simp_all
  define tb2 where "tb2 = tb1\<lparr>tid := (\<lambda>i. if nat 0 \<le> i \<and> i < nat T \<and> create_ok env i then Some AtBarrier else tid tb1 i)\<rparr>"
  have s2: "create_loop T (create_ok env) 0 tb1 = Ret tb2"
    unfolding tb2_def using T by (intro create_loop_run) simp_all
  have tid2: "\<And>i. tid tb2 i = (if i < nat T \<and> create_ok env i then Some AtBarrier else None)"
    by (simp add: tb2_def tb1_def no_tables_def)
  have "live tb2 = filter (\<lambda>i. i < nat T \<and> create_ok env i) [0..<nat MAX_THREADS]"
    by (simp add: live_def tid2)
  also have "\<dots> = filter (create_ok env) (filter (\<lambda>i. i < nat T) [0..<nat MAX_THREADS])"
    by (simp add: conj_commute)
  also have "\<dots> = filter (create_ok env) [0..<nat T]"
    using T by (simp add: filter_upt_less)
  finally have lv: "live tb2 = filter (create_ok env) [0..<nat T]" .
  have "length (filter (create_ok env) [0..<nat T]) < length [0..<nat T]"
    using f by (intro length_filter_less[of f]) simp_all
  hence "length (filter (create_ok env) [0..<nat T]) < nat T" by simp
  hence "int (length (filter (create_ok env) [0..<nat T])) \<noteq> T" by linarith
  hence "\<not> barrier_opens T tb2" by (simp add: barrier_opens_def lv)
  moreover have "join_loop T 0 tb2 (Num 0) = (if create_ok env 0 then Blocked else Undefined)"
    using T by (subst join_loop.simps) (simp add: tid2 MAX_THREADS_def)
  ultimately show ?thesis using s1 s2 by (simp add: trial_def)
qed

subsection \<open>The loop over the trials\<close>

lemma trial_time:
  assumes A: "0 \<le> A" "A < 2 ^ 32" and T: "1 \<le> T" "T \<le> MAX_THREADS"
    and ok: "\<forall>i<nat T. create_ok env i"
    and la: "length (arr_a m) = nat A" and lb: "length (arr_b m) = nat A"
  shows "\<exists>m' wl. trial A T env m = Some (Ret (Num (mean_elapsed env T), m', wl))
     \<and> arr_a m' = arr_a m \<and> length (arr_b m') = length (arr_b m)
     \<and> (\<forall>j<nat A. arr_b m' ! j =
           (if j < nat T * unat (chunk_size A T) then arr_a m ! j else arr_b m ! j))"
proof -
  obtain m' wl where "trial A T env m =
           Some (Ret (Num ((\<Sum>i = 0..<nat T. snd (clock env i) - fst (clock env i)) / real_of_int T), m', wl))"
     "arr_a m' = arr_a m" "length (arr_b m') = length (arr_b m)"
     "\<forall>j<nat A. arr_b m' ! j = (if j < nat T * unat (chunk_size A T) then arr_a m ! j else arr_b m ! j)"
    using trial_run[OF A T ok la lb refl] by blast
  then show ?thesis by (auto simp add: mean_elapsed_def elapsed_def)
qed

lemma trials_loop_prefix:
  assumes A: "0 \<le> A" "A < 2 ^ 32" and T: "1 \<le> T" "T \<le> MAX_THREADS"
    and k: "0 \<le> k" "k + int n = k0" "k0 \<le> N"
    and ok: "\<forall>j. nat k \<le> j \<and> j < nat k0 \<longrightarrow> (\<forall>i<nat T. create_ok (envs j) i)"
    and la: "length (arr_a m) = nat A" and lb: "length (arr_b m) = nat A"
  shows "\<exists>m'. trials_loop A N T envs k ts m =
             trials_loop A N T envs k0 (ts @ map (\<lambda>j. Num (mean_elapsed (envs j) T)) [nat k..<nat k0]) m'
     \<and> arr_a m' = arr_a m \<and> length (arr_b m') = length (arr_b m)
     \<and> (\<forall>j<nat A. arr_b m' ! j =
           (if 0 < n \<and> j < nat T * unat (chunk_size A T) then arr_a m ! j else arr_b m ! j))"
  using k ok la lb
proof (induction n arbitrary: k ts m)
  case 0
  then show ?case by auto
next
  case (Suc n)
  let ?S = "unat (chunk_size A T)"
  have kN: "k < N" using Suc.prems by simp
  have okk: "\<forall>i<nat T. create_ok (envs (nat k)) i" using Suc.prems by simp
  obtain m1 wl where t1: "trial A T (envs (nat k)) m = Some (Ret (Num (mean_elapsed (envs (nat k)) T), m1, wl))"
    and a1: "arr_a m1 = arr_a m" and l1: "length (arr_b m1) = length (arr_b m)"
    and n1: "\<forall>j<nat A. arr_b m1 ! j = (if j < nat T * ?S then arr_a m ! j else arr_b m ! j)"
    using trial_time[OF A T okk Suc.prems(5) Suc.prems(6)] by blast
  have step: "trials_loop A N T envs k ts m =
      trials_loop A N T envs (k + 1) (ts @ [Num (mean_elapsed (envs (nat k)) T)]) m1"
    using kN t1 by (subst trials_loop.simps) simp
  have "\<exists>m'. trials_loop A N T envs (k + 1) (ts @ [Num (mean_elapsed (envs (nat k)) T)]) m1 =
             trials_loop A N T envs k0 ((ts @ [Num (mean_elapsed (envs (nat k)) T)])
                @ map (\<lambda>j. Num (mean_elapsed (envs j) T)) [nat (k + 1)..<nat k0]) m'
     \<and> arr_a m' = arr_a m1 \<and> length (arr_b m') = length (arr_b m1)
     \<and> (\<forall>j<nat A. arr_b m' ! j =
           (if 0 < n \<and> j < nat T * ?S then arr_a m1 ! j else arr_b m1 ! j))"
    using Suc.prems a1 l1 by (intro Suc.IH) auto
  then obtain m' where r: "trials_loop A N T envs (k + 1) (ts @ [Num (mean_elapsed (envs (nat k)) T)]) m1 =
             trials_loop A N T envs k0 ((ts @ [Num (mean_elapsed (envs (nat k)) T)])
                @ map (\<lambda>j. Num (mean_elapsed (envs j) T)) [nat (k + 1)..<nat k0]) m'"
    and a': "arr_a m' = arr_a m1" and l': "length (arr_b m') = length (arr_b m1)"
    and n': "\<forall>j<nat A. arr_b m' ! j =
           (if 0 < n \<and> j < nat T * ?S then arr_a m1 ! j else arr_b m1 ! j)"
    by (elim exE conjE)
  have up: "[nat k..<nat k0] = nat k # [nat (k + 1)..<nat k0]"
    using Suc.prems(1,2) by (simp add: upt_conv_Cons nat_add_distrib)
  have res: "trials_loop A N T envs k ts m =
             trials_loop A N T envs k0 (ts @ map (\<lambda>j. Num (mean_elapsed (envs j) T)) [nat k..<nat k0]) m'"
    using step r by (simp add: up)
  have nth: "\<forall>j<nat A. arr_b m' ! j =
           (if 0 < Suc n \<and> j < nat T * ?S then arr_a m ! j else arr_b m ! j)"
    using n' n1 a1 by auto
  have a'': "arr_a m' = arr_a m" using a' a1 by simp
  have l'': "length (arr_b m') = length (arr_b m)" using l' l1 by simp
  show ?case by (rule exI[of _ m']) (intro conjI res a'' l'' nth)
qed

lemma trials_loop_done: "trials_loop A N T envs N ts m = Some (Ret (ts, m))"
  by (subst trials_loop.simps) simp

lemma trials_loop_undefined:
  assumes "k < N" "trial A T (envs (nat k)) m = Some Undefined"
  shows "trials_loop A N T envs k ts m = Some Undefined"
  using assms by (subst trials_loop.simps) simp

lemma trials_loop_blocked:
  assumes "k < N" "trial A T (envs (nat k)) m = Some Blocked"
  shows "trials_loop A N T envs k ts m = Some Blocked"
  using assms by (subst trials_loop.simps) simp


subsection \<open>The summary\<close>

lemma MIN_d_Num: "MIN_d (Num x) (Num y) = Num (min x y)"
  by (simp add: MIN_d_def min_def)

lemma MAX_d_Num: "MAX_d (Num x) (Num y) = Num (max x y)"
  by (simp add: MAX_d_def max_def)

lemma summary_loop_run:
  assumes "1 \<le> k" "k + int n = N" "length rs = nat N - 1"
  shows "summary_loop N k (t0 # map Num rs) \<lparr>avgtime = Num a, mintime = Num mn, maxtime = Num mx\<rparr> =
     \<lparr>avgtime = Num (a + sum_list (drop (nat k - 1) rs)),
      mintime = Num (fold min (drop (nat k - 1) rs) mn),
      maxtime = Num (fold max (drop (nat k - 1) rs) mx)\<rparr>"
  using assms
proof (induction n arbitrary: k a mn mx)
  case 0
  then have "k = N" by simp
  then show ?case using "0.prems" by (subst summary_loop.simps) simp
next
  case (Suc n)
  let ?x = "rs ! (nat k - 1)"
  have kN: "k < N" using Suc.prems by simp
  have idx: "nat k - 1 < length rs" using Suc.prems by simp
  have nk: "nat k = Suc (nat k - 1)" using Suc.prems(1) by simp
  have "(t0 # map Num rs) ! nat k = (map Num rs) ! (nat k - 1)" by (subst nk) simp
  hence el: "(t0 # map Num rs) ! nat k = Num ?x" using idx by simp
  have dr: "drop (nat k - 1) rs = ?x # drop (nat (k + 1) - 1) rs"
  proof -
    have e: "nat (k + 1) - 1 = Suc (nat k - 1)" using Suc.prems(1) by simp
    have "drop (nat k - 1) rs = ?x # drop (Suc (nat k - 1)) rs"
      using idx by (rule Cons_nth_drop_Suc[symmetric])
    then show ?thesis by (simp only: e)
  qed
  have "summary_loop N k (t0 # map Num rs) \<lparr>avgtime = Num a, mintime = Num mn, maxtime = Num mx\<rparr>
      = summary_loop N (k + 1) (t0 # map Num rs)
          \<lparr>avgtime = Num (a + ?x), mintime = Num (min mn ?x), maxtime = Num (max mx ?x)\<rparr>"
    using kN by (subst summary_loop.simps) (simp add: el MIN_d_Num MAX_d_Num)
  also have "\<dots> = \<lparr>avgtime = Num (a + ?x + sum_list (drop (nat (k + 1) - 1) rs)),
      mintime = Num (fold min (drop (nat (k + 1) - 1) rs) (min mn ?x)),
      maxtime = Num (fold max (drop (nat (k + 1) - 1) rs) (max mx ?x))\<rparr>"
    using Suc.prems by (intro Suc.IH) simp_all
  finally have f: "summary_loop N k (t0 # map Num rs) \<lparr>avgtime = Num a, mintime = Num mn, maxtime = Num mx\<rparr>
     = \<lparr>avgtime = Num (a + ?x + sum_list (drop (nat (k + 1) - 1) rs)),
      mintime = Num (fold min (drop (nat (k + 1) - 1) rs) (min mn ?x)),
      maxtime = Num (fold max (drop (nat (k + 1) - 1) rs) (max mx ?x))\<rparr>" .
  show ?case unfolding f dr by (simp add: min.commute max.commute add.assoc)
qed

lemma fold_min_Min: "xs \<noteq> [] \<Longrightarrow> fold min xs (m::real) = min m (Min (set xs))"
proof -
  assume "xs \<noteq> []"
  have "fold min xs m = Min (set (m # xs))" by (rule Min.set_eq_fold[symmetric])
  also have "\<dots> = min m (Min (set xs))" using \<open>xs \<noteq> []\<close> by simp
  finally show ?thesis .
qed

lemma fold_max_Max: "xs \<noteq> [] \<Longrightarrow> fold max xs (m::real) = max m (Max (set xs))"
proof -
  assume "xs \<noteq> []"
  have "fold max xs m = Max (set (m # xs))" by (rule Max.set_eq_fold[symmetric])
  also have "\<dots> = max m (Max (set xs))" using \<open>xs \<noteq> []\<close> by simp
  finally show ?thesis .
qed

lemma summary_run:
  assumes "2 \<le> N" "length rs = nat N - 1"
  shows "summary N (t0 # map Num rs) =
     \<lparr>avgtime = Num (sum_list rs / real_of_int (N - 1)),
      mintime = Num (min FLT_MAX (Min (set rs))),
      maxtime = Num (max 0 (Max (set rs)))\<rparr>"
proof -
  have ne: "rs \<noteq> []" using assms by auto
  have "summary_loop N 1 (t0 # map Num rs) \<lparr>avgtime = Num 0, mintime = Num FLT_MAX, maxtime = Num 0\<rparr> =
     \<lparr>avgtime = Num (0 + sum_list (drop (nat 1 - 1) rs)),
      mintime = Num (fold min (drop (nat 1 - 1) rs) FLT_MAX),
      maxtime = Num (fold max (drop (nat 1 - 1) rs) 0)\<rparr>"
    using assms by (intro summary_loop_run[where n = "nat (N - 1)"]) simp_all
  moreover have "N - 1 \<noteq> 0" using assms by simp
  ultimately show ?thesis
    using ne by (simp add: summary_def stats0_def fold_min_Min fold_max_Max)
qed

lemma sum_list_le_Max: "(\<forall>x\<in>set xs. x \<le> (M::real)) \<Longrightarrow> sum_list xs \<le> real (length xs) * M"
  by (induction xs) (auto simp add: algebra_simps)

lemma sum_list_ge_Min: "(\<forall>x\<in>set xs. (M::real) \<le> x) \<Longrightarrow> real (length xs) * M \<le> sum_list xs"
  by (induction xs) (auto simp add: algebra_simps)

lemma mean_between:
  assumes "rs \<noteq> []"
  shows "Min (set rs) \<le> sum_list rs / real (length rs)" and "sum_list rs / real (length rs) \<le> Max (set rs)"
proof -
  have pos: "0 < real (length rs)" using assms by simp
  have "real (length rs) * Min (set rs) \<le> sum_list rs" by (intro sum_list_ge_Min) simp
  then show "Min (set rs) \<le> sum_list rs / real (length rs)"
    using pos by (simp add: pos_le_divide_eq mult.commute)
  have "sum_list rs \<le> real (length rs) * Max (set rs)" by (intro sum_list_le_Max) simp
  then show "sum_list rs / real (length rs) \<le> Max (set rs)"
    using pos by (simp add: pos_divide_le_eq mult.commute)
qed

lemma bytes_eq: "0 \<le> A \<Longrightarrow> A < 2 ^ 32 \<Longrightarrow> bytes A = 2 * 4 * real_of_int A"
proof -
  assume A: "0 \<le> A" "A < 2 ^ 32"
  have "(2 * 4 * (word_of_int A :: 64 word)) = word_of_int (8 * A)" by simp
  moreover have "uint (word_of_int (8 * A) :: 64 word) = 8 * A"
    using A by (simp only: uint_word_of_int) (simp add: take_bit_int_eq_self)
  ultimately have "unat (2 * 4 * (word_of_int A :: 64 word)) = nat (8 * A)"
    by (simp only: unat_eq_nat_uint)
  then show ?thesis using A by (simp add: bytes_def)
qed

subsection \<open>The program\<close>

lemma NTIMES_ge2: "2 \<le> NTIMES given"
  by (simp add: NTIMES_def split: option.split)

lemma alloc_length: "alloc_ok e x \<Longrightarrow> length (alloc A e x) = nat A"
  by (simp add: alloc_def)

lemma main_init:
  assumes "0 \<le> A" "alloc_ok e ArrA" "alloc_ok e ArrB"
  shows "init_loop A 0 \<lparr>arr_a = alloc A e ArrA, arr_b = alloc A e ArrB, arr_c = alloc A e ArrC\<rparr> =
           Ret \<lparr>arr_a = replicate (nat A) 1, arr_b = replicate (nat A) 2, arr_c = alloc A e ArrC\<rparr>"
proof -
  have "init_loop A 0 \<lparr>arr_a = alloc A e ArrA, arr_b = alloc A e ArrB, arr_c = alloc A e ArrC\<rparr> =
     Ret \<lparr>arr_a = take (nat 0) (arr_a \<lparr>arr_a = alloc A e ArrA, arr_b = alloc A e ArrB, arr_c = alloc A e ArrC\<rparr>) @ replicate (nat A - nat 0) 1,
          arr_b = take (nat 0) (arr_b \<lparr>arr_a = alloc A e ArrA, arr_b = alloc A e ArrB, arr_c = alloc A e ArrC\<rparr>) @ replicate (nat A - nat 0) 2,
          arr_c = arr_c \<lparr>arr_a = alloc A e ArrA, arr_b = alloc A e ArrB, arr_c = alloc A e ArrC\<rparr>\<rparr>"
    using assms by (intro init_loop_run) (simp_all add: alloc_length)
  then show ?thesis by simp
qed

lemma main_run:
  assumes A: "0 \<le> A" "A < 2 ^ 32" and T: "1 \<le> T" "T \<le> MAX_THREADS"
    and al: "alloc_ok e ArrA" "alloc_ok e ArrB"
    and ok: "\<forall>k<nat (NTIMES given). \<forall>i<nat T. create_ok (tenvs e k) i"
  shows "\<exists>m'. main A given T e =
           Some (Ret ((T, bandwidth A (summary (NTIMES given)
                            (map (\<lambda>k. Num (mean_elapsed (tenvs e k) T)) [0..<nat (NTIMES given)]))),
                      summary (NTIMES given)
                            (map (\<lambda>k. Num (mean_elapsed (tenvs e k) T)) [0..<nat (NTIMES given)]), m'))
     \<and> arr_a m' = replicate (nat A) 1 \<and> length (arr_b m') = nat A
     \<and> (\<forall>j<nat A. arr_b m' ! j = (if j < nat T * unat (chunk_size A T) then 1 else 2))"
proof -
  let ?N = "NTIMES given"
  let ?m1 = "\<lparr>arr_a = replicate (nat A) 1, arr_b = replicate (nat A) 2, arr_c = alloc A e ArrC\<rparr>"
  let ?ts = "map (\<lambda>k. Num (mean_elapsed (tenvs e k) T)) [0..<nat ?N]"
  have N: "2 \<le> ?N" by (rule NTIMES_ge2)
  have i: "init_loop A 0 \<lparr>arr_a = alloc A e ArrA, arr_b = alloc A e ArrB, arr_c = alloc A e ArrC\<rparr> = Ret ?m1"
    using A al by (intro main_init)
  have "\<exists>m'. trials_loop A ?N T (tenvs e) 0 [] ?m1 =
             trials_loop A ?N T (tenvs e) ?N ([] @ map (\<lambda>j. Num (mean_elapsed (tenvs e j) T)) [nat 0..<nat ?N]) m'
     \<and> arr_a m' = arr_a ?m1 \<and> length (arr_b m') = length (arr_b ?m1)
     \<and> (\<forall>j<nat A. arr_b m' ! j =
           (if 0 < nat ?N \<and> j < nat T * unat (chunk_size A T) then arr_a ?m1 ! j else arr_b ?m1 ! j))"
    using A T N ok by (intro trials_loop_prefix) simp_all
  then obtain m' where t: "trials_loop A ?N T (tenvs e) 0 [] ?m1 = trials_loop A ?N T (tenvs e) ?N ?ts m'"
    and a': "arr_a m' = replicate (nat A) 1" and l': "length (arr_b m') = nat A"
    and n': "\<forall>j<nat A. arr_b m' ! j =
           (if 0 < nat ?N \<and> j < nat T * unat (chunk_size A T) then arr_a ?m1 ! j else arr_b ?m1 ! j)"
    by auto
  have n'': "\<forall>j<nat A. arr_b m' ! j = (if j < nat T * unat (chunk_size A T) then 1 else 2)"
    using n' N by simp
  have res: "main A given T e = Some (Ret ((T, bandwidth A (summary ?N ?ts)), summary ?N ?ts, m'))"
    by (simp add: main_def i t trials_loop_done Let_def)
  show ?thesis by (rule exI[of _ m']) (intro conjI res a' l' n'')
qed

lemma dadd_NaN [simp]: "dadd x NaN = NaN"
  by (cases x) simp_all

lemma dless_NaN [simp]: "dless x NaN = False"
  by (cases x) simp_all

lemma ddiv_NaN [simp]: "ddiv x NaN = NaN"
  by (cases x) simp_all




lemma main_alloc_failure:
  assumes "0 < A" "\<not> alloc_ok e ArrA \<or> \<not> alloc_ok e ArrB"
  shows "main A given T e = Some Undefined"
proof -
  have "init_loop A 0 \<lparr>arr_a = alloc A e ArrA, arr_b = alloc A e ArrB, arr_c = alloc A e ArrC\<rparr> = Undefined"
    using assms by (intro init_loop_unset) (auto simp add: alloc_def)
  then show ?thesis by (simp add: main_def)
qed

lemma main_create_failure:
  assumes A: "0 \<le> A" "A < 2 ^ 32" and T: "1 \<le> T" "T \<le> MAX_THREADS"
    and al: "alloc_ok e ArrA" "alloc_ok e ArrB"
    and k0: "k0 < nat (NTIMES given)"
    and ok: "\<forall>k<k0. \<forall>i<nat T. create_ok (tenvs e k) i"
    and f: "f < nat T" "\<not> create_ok (tenvs e k0) f"
  shows "main A given T e = Some (if create_ok (tenvs e k0) 0 then Blocked else Undefined)"
proof -
  let ?N = "NTIMES given"
  let ?m1 = "\<lparr>arr_a = replicate (nat A) 1, arr_b = replicate (nat A) 2, arr_c = alloc A e ArrC\<rparr>"
  have i: "init_loop A 0 \<lparr>arr_a = alloc A e ArrA, arr_b = alloc A e ArrB, arr_c = alloc A e ArrC\<rparr> = Ret ?m1"
    using A al by (intro main_init)
  have "\<exists>m'. trials_loop A ?N T (tenvs e) 0 [] ?m1 =
             trials_loop A ?N T (tenvs e) (int k0) ([] @ map (\<lambda>j. Num (mean_elapsed (tenvs e j) T)) [nat 0..<nat (int k0)]) m'
     \<and> arr_a m' = arr_a ?m1 \<and> length (arr_b m') = length (arr_b ?m1)
     \<and> (\<forall>j<nat A. arr_b m' ! j =
           (if 0 < k0 \<and> j < nat T * unat (chunk_size A T) then arr_a ?m1 ! j else arr_b ?m1 ! j))"
    using A T k0 ok by (intro trials_loop_prefix) simp_all
  then obtain m' ts where t: "trials_loop A ?N T (tenvs e) 0 [] ?m1 = trials_loop A ?N T (tenvs e) (int k0) ts m'"
    by blast
  have tr: "trial A T (tenvs e (nat (int k0))) m' = Some (if create_ok (tenvs e k0) 0 then Blocked else Undefined)"
    using trial_create_failure[OF T f] by simp
  have "trials_loop A ?N T (tenvs e) (int k0) ts m' = Some (if create_ok (tenvs e k0) 0 then Blocked else Undefined)"
  proof (cases "create_ok (tenvs e k0) 0")
    case True
    then show ?thesis using tr k0 by (simp add: trials_loop_blocked)
  next
    case False
    then show ?thesis using tr k0 by (simp add: trials_loop_undefined)
  qed
  then show ?thesis by (auto simp add: main_def i t)
qed

subsection \<open>Auxiliary facts for the claims\<close>

lemma chunk_index:
  assumes "i < n" "k < (S::nat)"
  shows "i * S + k < n * S"
proof -
  have "i * S + k < Suc i * S" using assms(2) by simp
  also have "\<dots> \<le> n * S" using assms(1) by (intro mult_right_mono) simp_all
  finally show ?thesis .
qed

lemma init_loop_arr_c: "init_loop A j m = Ret m' \<Longrightarrow> arr_c m' = arr_c m"
proof (induction A j m rule: init_loop.induct)
  case (1 A j m)
  show ?case
  proof (cases "j < A \<and> 0 \<le> j \<and> nat j < length (arr_a m) \<and> nat j < length (arr_b m)")
    case True
    then have "init_loop A j m =
       init_loop A (j + 1) (m\<lparr>arr_a := (arr_a m)[nat j := 1], arr_b := (arr_b m)[nat j := 2]\<rparr>)"
      by (subst init_loop.simps) simp
    then have "arr_c m' = arr_c (m\<lparr>arr_a := (arr_a m)[nat j := 1], arr_b := (arr_b m)[nat j := 2]\<rparr>)"
      using True "1.prems" by (intro "1.IH") simp_all
    then show ?thesis by simp
  next
    case False
    then show ?thesis using "1.prems" by (subst (asm) init_loop.simps) (auto split: if_splits)
  qed
qed

lemma trials_loop_arr_c:
  "trials_loop A N T envs k ts m = Some (Ret (ts', m')) \<Longrightarrow> arr_c m' = arr_c m"
proof (induction A N T envs k ts m rule: trials_loop.induct)
  case (1 A N threads envs k ts m)
  show ?case
  proof (cases "k < N")
    case True
    then obtain t m1 wl where t: "trial A threads (envs (nat k)) m = Some (Ret (t, m1, wl))"
      and r: "trials_loop A N threads envs (k + 1) (ts @ [t]) m1 = Some (Ret (ts', m'))"
      using "1.prems" by (subst (asm) trials_loop.simps) (auto split: option.splits result.splits)
    have "arr_c m' = arr_c m1" using True t r by (intro "1.IH"[of "Ret (t, m1, wl)"]) simp_all
    then show ?thesis using trial_arr_c[OF t] by simp
  next
    case False
    then show ?thesis using "1.prems" by (subst (asm) trials_loop.simps) simp
  qed
qed

lemma main_arr_c:
  "main A given T e = Some (Ret (p, st, m')) \<Longrightarrow> arr_c m' = alloc A e ArrC"
  by (auto simp add: main_def Let_def split: option.splits result.splits
        dest!: init_loop_arr_c trials_loop_arr_c)

lemma main_run_eq:
  assumes A: "0 \<le> A" "A < 2 ^ 32" and T: "1 \<le> T" "T \<le> MAX_THREADS"
    and al: "alloc_ok e ArrA" "alloc_ok e ArrB"
    and ok: "\<forall>k<nat (NTIMES given). \<forall>i<nat T. create_ok (tenvs e k) i"
  shows "main A given T e =
           Some (Ret ((T, bandwidth A (summary (NTIMES given)
                            (map (\<lambda>k. Num (mean_elapsed (tenvs e k) T)) [0..<nat (NTIMES given)]))),
                      summary (NTIMES given)
                            (map (\<lambda>k. Num (mean_elapsed (tenvs e k) T)) [0..<nat (NTIMES given)]),
                      \<lparr>arr_a = replicate (nat A) 1,
                       arr_b = map (\<lambda>j. if j < nat T * unat (chunk_size A T) then 1 else 2) [0..<nat A],
                       arr_c = alloc A e ArrC\<rparr>))"
proof -
  obtain m' where r: "main A given T e =
           Some (Ret ((T, bandwidth A (summary (NTIMES given)
                            (map (\<lambda>k. Num (mean_elapsed (tenvs e k) T)) [0..<nat (NTIMES given)]))),
                      summary (NTIMES given)
                            (map (\<lambda>k. Num (mean_elapsed (tenvs e k) T)) [0..<nat (NTIMES given)]), m'))"
    and a: "arr_a m' = replicate (nat A) 1" and l: "length (arr_b m') = nat A"
    and n: "\<forall>j<nat A. arr_b m' ! j = (if j < nat T * unat (chunk_size A T) then 1 else 2)"
    using main_run[OF assms] by blast
  have "arr_b m' = map (\<lambda>j. if j < nat T * unat (chunk_size A T) then 1 else 2) [0..<nat A]"
    using l n by (intro nth_equalityI) simp_all
  moreover have "arr_c m' = alloc A e ArrC" using r by (rule main_arr_c)
  ultimately have "m' = \<lparr>arr_a = replicate (nat A) 1,
               arr_b = map (\<lambda>j. if j < nat T * unat (chunk_size A T) then 1 else 2) [0..<nat A],
                       arr_c = alloc A e ArrC\<rparr>"
    using a by (cases m') simp
  with r show ?thesis by simp
qed

lemma times_split:
  assumes "2 \<le> N"
  shows "map (\<lambda>k. Num (f k)) [0..<nat N] = Num (f 0) # map Num (map f [1..<nat N])"
proof -
  have "[0..<nat N] = 0 # [1..<nat N]" using assms by (simp add: upt_conv_Cons)
  then show ?thesis by simp
qed


lemma mean_elapsed_bound:
  assumes "1 \<le> T" and "\<forall>i<nat T. clock_in_range env i"
  shows "mean_elapsed env T \<le> FLT_MAX"
proof -
  have b: "\<And>i. i \<in> {0..<nat T} \<Longrightarrow> elapsed env i \<le> 2 ^ 64 + 2"
  proof -
    fix i assume "i \<in> {0..<nat T}"
    then have "clock_in_range env i" using assms(2) by simp
    then show "elapsed env i \<le> 2 ^ 64 + 2"
      by (simp add: clock_in_range_def elapsed_def abs_le_iff)
  qed
  have "(\<Sum>i = 0..<nat T. elapsed env i) \<le> (\<Sum>i = 0..<nat T. 2 ^ 64 + 2)"
    using b by (rule sum_mono)
  also have "\<dots> = real (nat T) * (2 ^ 64 + 2)" by simp
  finally have "(\<Sum>i = 0..<nat T. elapsed env i) \<le> real_of_int T * (2 ^ 64 + 2)"
    using assms(1) by simp
  moreover have "0 < real_of_int T" using assms(1) by simp
  ultimately have "mean_elapsed env T \<le> 2 ^ 64 + 2"
    by (simp add: mean_elapsed_def pos_divide_le_eq mult.commute)
  also have "(2 ^ 64 + 2 :: real) \<le> FLT_MAX" by (simp add: FLT_MAX_def)
  finally show ?thesis .
qed

lemma mean_elapsed_cong:
  "clock env' = clock env \<Longrightarrow> mean_elapsed env' T = mean_elapsed env T"
  by (simp add: mean_elapsed_def elapsed_def)

text \<open>
  A wall clock that is set back between the two samples of a worker gives a negative
  trial time.
\<close>

lemma clock_set_back:
  "\<exists>m' wl. trial 40 1 (tenv0\<lparr>clock := (\<lambda>i. (1, 0))\<rparr>) mem0 = Some (Ret (Num (- 1), m', wl))"
proof -
  have "mean_elapsed (tenv0\<lparr>clock := (\<lambda>i. (1, 0))\<rparr>) 1 = - 1"
    by (simp add: mean_elapsed_def elapsed_def)
  moreover have "\<exists>m' wl. trial 40 1 (tenv0\<lparr>clock := (\<lambda>i. (1, 0))\<rparr>) mem0 =
       Some (Ret (Num (mean_elapsed (tenv0\<lparr>clock := (\<lambda>i. (1, 0))\<rparr>) 1), m', wl))"
    using trial_time[of 40 1 "tenv0\<lparr>clock := (\<lambda>i. (1, 0))\<rparr>" mem0]
    by (auto simp add: tenv0_def mem0_def MAX_THREADS_def)
  ultimately show ?thesis by simp
qed

subsection \<open>An array of 6000000000 elements and four workers\<close>

text \<open>
  The chunk size is 1500000000 and the product \<open>size*tt\<close> of worker 3 wraps around:
  \<open>4500000000 mod 2\<^sup>3\<^sup>2\<close> is 205032704.
\<close>

lemma chunk_size_6G: "chunk_size 6000000000 4 = 1500000000"
  by (simp add: chunk_size_def sdiv_nonneg and_not_15)

lemma off_6G:
  "unat (chunk_size 6000000000 4 * word_of_int (int 0)) = 0"
  "unat (chunk_size 6000000000 4 * word_of_int (int 1)) = 1500000000"
  "unat (chunk_size 6000000000 4 * word_of_int (int 2)) = 3000000000"
  "unat (chunk_size 6000000000 4 * word_of_int (int 3)) = 205032704"
  by (simp_all add: chunk_size_6G)

lemma mem6G_length:
  "length (arr_a mem6G) = nat 6000000000" "length (arr_b mem6G) = nat 6000000000"
proof -
  have n: "nat 6000000000 = (6000000000::nat)" by simp
  show "length (arr_a mem6G) = nat 6000000000"
    unfolding n mem6G_def mem.select_convs by (rule length_replicate)
  show "length (arr_b mem6G) = nat 6000000000"
    unfolding n mem6G_def mem.select_convs by (rule length_replicate)
qed

lemma mem6G_nth:
  "arr_a mem6G ! 4500000000 = 1" "arr_b mem6G ! 4500000000 = 2"
proof -
  have lt: "(4500000000::nat) < 6000000000" by simp
  show "arr_a mem6G ! 4500000000 = 1"
    unfolding mem6G_def mem.select_convs using lt by (rule nth_replicate)
  show "arr_b mem6G ! 4500000000 = 2"
    unfolding mem6G_def mem.select_convs using lt by (rule nth_replicate)
qed

lemma first_access:
  "set acs = Rd ArrA ` {p..<p + S} \<union> Wr ArrB ` {p..<p + S} \<Longrightarrow> 0 < S \<Longrightarrow>
   Rd ArrA p \<in> set acs \<and> Wr ArrB p \<in> set acs"
  by auto


lemma in_accesses:
  "(tt, acs) \<in> set wl \<Longrightarrow> x \<in> set acs \<Longrightarrow>
   x \<in> set (concat (map snd (filter (\<lambda>p. fst p = tt) wl)))"
  by force

lemma trial_6G:
  "\<exists>t m' wl acs. trial 6000000000 4 tenv0 mem6G = Some (Ret (t, m', wl))
     \<and> arr_a m' = arr_a mem6G
     \<and> arr_b m' ! 4500000000 = 2
     \<and> (3, acs) \<in> set wl \<and> Rd ArrA 205032704 \<in> set acs \<and> Wr ArrB 205032704 \<in> set acs"
proof -
  let ?off = "\<lambda>tt. unat (chunk_size 6000000000 4 * word_of_int (int tt))"
  have T: "(1::int) \<le> 4" "4 \<le> MAX_THREADS" by (simp_all add: MAX_THREADS_def)
  have ok: "\<forall>i<nat 4. create_ok tenv0 i" by (simp add: tenv0_def)
  have S: "(1500000000::nat) = unat (chunk_size 6000000000 4)" by (simp add: chunk_size_6G)
  have dv: "16 dvd (1500000000::nat)" by simp
  have off: "\<forall>tt<nat 4. unat (chunk_size 6000000000 4 * word_of_int (int tt)) = ?off tt
                \<and> 16 dvd ?off tt \<and> ?off tt + 1500000000 \<le> nat 6000000000"
  proof (intro allI impI)
    fix tt :: nat assume "tt < nat 4"
    then have "tt = 0 \<or> tt = 1 \<or> tt = 2 \<or> tt = 3" by arith
    then show "unat (chunk_size 6000000000 4 * word_of_int (int tt)) = ?off tt
                \<and> 16 dvd ?off tt \<and> ?off tt + 1500000000 \<le> nat 6000000000"
      using off_6G by (elim disjE) simp_all
  qed
  obtain m' wl where r: "trial 6000000000 4 tenv0 mem6G =
           Some (Ret (Num ((\<Sum>i = 0..<nat 4. snd (clock tenv0 i) - fst (clock tenv0 i)) / real_of_int 4), m', wl))"
     and a: "arr_a m' = arr_a mem6G"
     and n: "\<forall>j<nat 6000000000. arr_b m' ! j =
           (if \<exists>tt\<in>set [0..<nat 4]. ?off tt \<le> j \<and> j < ?off tt + 1500000000 then arr_a mem6G ! j else arr_b mem6G ! j)"
     and f: "map fst wl = [0..<nat 4]"
     and w: "\<forall>(tt, acs)\<in>set wl. set acs = Rd ArrA ` {?off tt..<?off tt + 1500000000} \<union> Wr ArrB ` {?off tt..<?off tt + 1500000000}"
    using trial_run_off[OF T ok mem6G_length S dv off] by blast
  have no: "\<not> (\<exists>tt\<in>set [0..<nat 4]. ?off tt \<le> 4500000000 \<and> 4500000000 < ?off tt + 1500000000)"
  proof
    assume "\<exists>tt\<in>set [0..<nat 4]. ?off tt \<le> 4500000000 \<and> 4500000000 < ?off tt + 1500000000"
    then obtain tt where tt: "tt < 4" and c: "?off tt \<le> 4500000000 \<and> 4500000000 < ?off tt + 1500000000"
      by auto
    from tt have "tt = 0 \<or> tt = 1 \<or> tt = 2 \<or> tt = 3" by arith
    then show False using c off_6G by (elim disjE) simp_all
  qed
  have lt: "(4500000000::nat) < nat 6000000000" by simp
  have "arr_b m' ! 4500000000 =
           (if \<exists>tt\<in>set [0..<nat 4]. ?off tt \<le> 4500000000 \<and> 4500000000 < ?off tt + 1500000000
            then arr_a mem6G ! 4500000000 else arr_b mem6G ! 4500000000)"
    using n lt by blast
  hence b: "arr_b m' ! 4500000000 = 2"
    by (simp only: no if_False mem6G_nth)
  have "(3::nat) \<in> set (map fst wl)" unfolding f by simp
  then obtain acs where p: "(3, acs) \<in> set wl" by auto
  with w have "set acs = Rd ArrA ` {?off 3..<?off 3 + 1500000000} \<union> Wr ArrB ` {?off 3..<?off 3 + 1500000000}"
    by blast
  hence "Rd ArrA (?off 3) \<in> set acs \<and> Wr ArrB (?off 3) \<in> set acs"
    by (rule first_access) simp
  hence x: "Rd ArrA 205032704 \<in> set acs" "Wr ArrB 205032704 \<in> set acs"
    by (simp_all only: off_6G(4))
  show ?thesis
    by (rule exI[of _ "Num ((\<Sum>i = 0..<nat 4. snd (clock tenv0 i) - fst (clock tenv0 i)) / real_of_int 4)"],
        rule exI[of _ m'], rule exI[of _ wl], rule exI[of _ acs])
       (intro conjI r a b p x)
qed

subsection \<open>The results of the affinity calls\<close>

















section \<open>The claims\<close>

text \<open>
  C1 (amended). For an array length below \<open>2\<^sup>3\<^sup>2\<close>: after a trial that runs
  \<open>T\<close> workers with chunk size \<open>S\<close>, the destination element at \<open>i * S + k\<close>
  equals the source element at \<open>i * S + k\<close>, for every worker \<open>i < T\<close> and every
  \<open>k < S\<close>; the source element is the one from before the trial.
\<close>

theorem copy_correctness:
  assumes "0 \<le> A" and "A < 2 ^ 32" and "1 \<le> T" and "T \<le> MAX_THREADS"
    and "\<forall>i<nat T. create_ok env i"
    and "length (arr_a m) = nat A" and "length (arr_b m) = nat A"
  shows "\<exists>t m' wl. trial A T env m = Some (Ret (t, m', wl))
     \<and> (\<forall>i<nat T. \<forall>k<unat (chunk_size A T).
           arr_b m' ! (i * unat (chunk_size A T) + k) = arr_a m' ! (i * unat (chunk_size A T) + k)
         \<and> arr_a m' ! (i * unat (chunk_size A T) + k) = arr_a m ! (i * unat (chunk_size A T) + k))"
proof -
  let ?S = "unat (chunk_size A T)"
  obtain m' wl where r: "trial A T env m =
           Some (Ret (Num ((\<Sum>i = 0..<nat T. snd (clock env i) - fst (clock env i)) / real_of_int T), m', wl))"
    and a: "arr_a m' = arr_a m"
    and n: "\<forall>j<nat A. arr_b m' ! j = (if j < nat T * ?S then arr_a m ! j else arr_b m ! j)"
    using trial_run[OF assms refl] by blast
  have tot: "nat T * ?S \<le> nat A" using assms(1-3) by (rule chunk_total)
  have "\<forall>i<nat T. \<forall>k<?S. arr_b m' ! (i * ?S + k) = arr_a m' ! (i * ?S + k)
         \<and> arr_a m' ! (i * ?S + k) = arr_a m ! (i * ?S + k)"
  proof (intro allI impI)
    fix i k assume "i < nat T" "k < ?S"
    then have lt: "i * ?S + k < nat T * ?S" by (rule chunk_index)
    then have "i * ?S + k < nat A" using tot by simp
    then show "arr_b m' ! (i * ?S + k) = arr_a m' ! (i * ?S + k)
         \<and> arr_a m' ! (i * ?S + k) = arr_a m ! (i * ?S + k)"
      using n lt a by simp
  qed
  with r show ?thesis by blast
qed

theorem copy_correctness_witness:
  "\<exists>t m' wl. trial 40 2 tenv0 mem0 = Some (Ret (t, m', wl))
     \<and> (\<forall>i<nat 2. \<forall>k<unat (chunk_size 40 2).
           arr_b m' ! (i * unat (chunk_size 40 2) + k) = arr_a m' ! (i * unat (chunk_size 40 2) + k)
         \<and> arr_a m' ! (i * unat (chunk_size 40 2) + k) = arr_a mem0 ! (i * unat (chunk_size 40 2) + k))"
  by (rule copy_correctness) (simp_all add: tenv0_def mem0_def MAX_THREADS_def)

text \<open>
  The claim as stated fails for an array of 6000000000 elements and 4 workers. The
  chunk size is 1500000000, and the offset \<open>size*tt\<close> of worker 3, computed in
  \<open>uint32_t\<close>, is 205032704 and not 4500000000: worker 3 copies elements that workers
  0 and 1 copy as well, and no worker copies the elements from 4500000000 on. After
  the trial the destination element at \<open>3 * S + 0\<close> is still 2, the source element 1.
\<close>

theorem copy_correctness_counterexample:
  "dest_after (trial 6000000000 4 tenv0 mem6G) (3 * unat (chunk_size 6000000000 4) + 0) = Some 2
     \<and> src_after (trial 6000000000 4 tenv0 mem6G) (3 * unat (chunk_size 6000000000 4) + 0) = Some 1"
proof -
  obtain t m' wl where r: "trial 6000000000 4 tenv0 mem6G = Some (Ret (t, m', wl))"
    and a: "arr_a m' = arr_a mem6G" and b: "arr_b m' ! 4500000000 = 2"
    using trial_6G by blast
  have a1: "arr_a m' ! 4500000000 = 1" by (simp only: a mem6G_nth)
  have i: "3 * unat (chunk_size 6000000000 4) + 0 = 4500000000" by (simp add: chunk_size_6G)
  show ?thesis unfolding i by (simp add: r dest_after_def src_after_def a1 b)
qed




text \<open>
  C3. The time recorded for a trial is the sum of the intervals that the \<open>T\<close>
  workers measured, divided by \<open>T\<close>: the mean of the values that \<open>copy\<close> stores in
  the \<open>time\<close> slots, each the difference of the two clock samples of that worker.
  The orchestrator takes no clock sample of its own. The loop over the trials
  records this value for every trial \<open>k\<close>.
\<close>

theorem trial_time_is_mean:
  assumes "0 \<le> A" and "A < 2 ^ 31" and "1 \<le> T" and "T \<le> MAX_THREADS"
    and "\<forall>i<nat T. create_ok env i"
    and "length (arr_a m) = nat A" and "length (arr_b m) = nat A"
  shows "(\<exists>m' wl. trial A T env m =
            Some (Ret (Num ((\<Sum>i = 0..<nat T. elapsed env i) / real_of_int T), m', wl)))
     \<and> (\<forall>i<nat T. \<exists>arg' m1 acs.
            copy (assign A T (int i)) (clock env i) m = Some (Ret (arg', m1, acs))
          \<and> arg_time arg' = Some (Num (elapsed env i))
          \<and> elapsed env i = snd (clock env i) - fst (clock env i))
     \<and> (0 \<le> N \<and> (\<forall>k<nat N. \<forall>i<nat T. create_ok (envs k) i) \<longrightarrow>
          (\<exists>m'. trials_loop A N T envs 0 [] m =
             Some (Ret (map (\<lambda>k. Num ((\<Sum>i = 0..<nat T. elapsed (envs k) i) / real_of_int T))
                          [0..<nat N], m'))))"
proof (intro conjI impI)
  have A32: "A < 2 ^ 32" using assms(2) by simp
  obtain m' wl where "trial A T env m =
           Some (Ret (Num ((\<Sum>i = 0..<nat T. snd (clock env i) - fst (clock env i)) / real_of_int T), m', wl))"
    using trial_run[OF assms(1) A32 assms(3-7) refl] by blast
  then show "\<exists>m' wl. trial A T env m =
            Some (Ret (Num ((\<Sum>i = 0..<nat T. elapsed env i) / real_of_int T), m', wl))"
    by (auto simp add: elapsed_def)
next
  let ?S = "unat (chunk_size A T)"
  have A32: "A < 2 ^ 32" using assms(2) by simp
  have dv: "16 dvd ?S" using assms(1) A32 assms(3) by (rule chunk_size_dvd)
  have tot: "nat T * ?S \<le> nat A" using assms(1) A32 assms(3) by (rule chunk_total)
  show "\<forall>i<nat T. \<exists>arg' m1 acs.
            copy (assign A T (int i)) (clock env i) m = Some (Ret (arg', m1, acs))
          \<and> arg_time arg' = Some (Num (elapsed env i))
          \<and> elapsed env i = snd (clock env i) - fst (clock env i)"
  proof (intro allI impI)
    fix i assume i: "i < nat T"
    let ?arg = "assign A T (int i)"
    have off: "unat (chunk_size A T * word_of_int (int i)) = nat (int i) * ?S"
      using assms(1) A32 assms(3) i by (intro assign_offset) simp_all
    have a: "arg_a ?arg = i * ?S" "arg_b ?arg = i * ?S" "unat (arg_size ?arg) = ?S"
      using off by (simp_all add: assign_def Let_def)
    have "Suc i * ?S \<le> nat T * ?S" using i by (intro mult_right_mono) simp_all
    hence fit: "i * ?S + ?S \<le> nat A" using tot by simp
    have "\<exists>m1 acs. copy ?arg (clock env i) m =
             Some (Ret (?arg\<lparr>arg_time := Some (Num (snd (clock env i) - fst (clock env i)))\<rparr>, m1, acs))
           \<and> arr_a m1 = arr_a m \<and> length (arr_b m1) = length (arr_b m)
           \<and> (\<forall>j < length (arr_b m). arr_b m1 ! j =
                 (if arg_b ?arg \<le> j \<and> j < arg_b ?arg + unat (arg_size ?arg)
                  then arr_a m ! (arg_a ?arg + (j - arg_b ?arg)) else arr_b m ! j))
           \<and> set acs = Rd ArrA ` {arg_a ?arg..<arg_a ?arg + unat (arg_size ?arg)}
                      \<union> Wr ArrB ` {arg_b ?arg..<arg_b ?arg + unat (arg_size ?arg)}"
      using dv fit assms(6,7) by (intro copy_run) (simp_all add: a)
    then obtain m1 acs where "copy ?arg (clock env i) m =
             Some (Ret (?arg\<lparr>arg_time := Some (Num (snd (clock env i) - fst (clock env i)))\<rparr>, m1, acs))"
      by blast
    then show "\<exists>arg' m1 acs.
            copy ?arg (clock env i) m = Some (Ret (arg', m1, acs))
          \<and> arg_time arg' = Some (Num (elapsed env i))
          \<and> elapsed env i = snd (clock env i) - fst (clock env i)"
      by (simp add: elapsed_def)
  qed
next
  assume h: "0 \<le> N \<and> (\<forall>k<nat N. \<forall>i<nat T. create_ok (envs k) i)"
  have A32: "A < 2 ^ 32" using assms(2) by simp
  have "\<exists>m'. trials_loop A N T envs 0 [] m =
             trials_loop A N T envs N ([] @ map (\<lambda>j. Num (mean_elapsed (envs j) T)) [nat 0..<nat N]) m'
     \<and> arr_a m' = arr_a m \<and> length (arr_b m') = length (arr_b m)
     \<and> (\<forall>j<nat A. arr_b m' ! j =
           (if 0 < nat N \<and> j < nat T * unat (chunk_size A T) then arr_a m ! j else arr_b m ! j))"
    using assms(1) A32 assms(3-7) h by (intro trials_loop_prefix) simp_all
  then obtain m' where "trials_loop A N T envs 0 [] m =
             trials_loop A N T envs N (map (\<lambda>j. Num (mean_elapsed (envs j) T)) [0..<nat N]) m'"
    by auto
  then show "\<exists>m'. trials_loop A N T envs 0 [] m =
             Some (Ret (map (\<lambda>k. Num ((\<Sum>i = 0..<nat T. elapsed (envs k) i) / real_of_int T))
                          [0..<nat N], m'))"
    by (simp add: trials_loop_done mean_elapsed_def)
qed

theorem trial_time_is_mean_witness:
  "(\<exists>m' wl. trial 40 2 tenv0 mem0 = Some (Ret (Num (3 / 2), m', wl)))
     \<and> elapsed tenv0 0 = 1 \<and> elapsed tenv0 1 = 2
     \<and> (\<exists>m'. trials_loop 40 3 2 (\<lambda>k. tenv0) 0 [] mem0 =
             Some (Ret ([Num (3 / 2), Num (3 / 2), Num (3 / 2)], m')))"
proof -
  have s: "(\<Sum>i = 0..<nat 2. elapsed tenv0 i) / real_of_int 2 = 3 / 2"
    by (simp add: elapsed_def tenv0_def numeral_2_eq_2)
  have u: "[0..<nat 3] = [0, 1, 2]"
    by (simp add: upt_conv_Cons numeral_3_eq_3)
  have h: "(0::int) \<le> 40" "(40::int) < 2 ^ 31" "(1::int) \<le> 2" "2 \<le> MAX_THREADS"
    "\<forall>i<nat 2. create_ok tenv0 i" "length (arr_a mem0) = nat 40" "length (arr_b mem0) = nat 40"
    by (simp_all add: tenv0_def mem0_def MAX_THREADS_def)
  have k: "(0::int) \<le> 3 \<and> (\<forall>k<nat 3. \<forall>i<nat 2. create_ok tenv0 i)"
    by (simp add: tenv0_def)
  show ?thesis
    using trial_time_is_mean[OF h, where N = 3 and envs = "\<lambda>k. tenv0"] k
    unfolding s u by (simp add: elapsed_def tenv0_def)
qed

text \<open>
  C4 (amended). For \<open>NTIMES \<ge> 2\<close> and finite trial times, the time of trial 0 has
  no influence on the statistics. Over the other \<open>NTIMES - 1\<close> times, \<open>avgtime\<close> is
  their sum divided by \<open>NTIMES - 1\<close>, \<open>mintime\<close> is the smaller of \<open>FLT_MAX\<close> and
  their minimum, \<open>maxtime\<close> is the larger of 0 and their maximum, and
  \<open>mintime \<le> avgtime \<le> maxtime\<close>. When each of these times lies between 0 and
  \<open>FLT_MAX\<close>, \<open>mintime\<close> is their minimum and \<open>maxtime\<close> their maximum. The sum and
  the quotient are exact here; the rounding of \<open>double\<close> is not modelled.
\<close>

theorem aggregate_statistics:
  assumes "2 \<le> N" and "length rs = nat N - 1"
  shows "avgtime (summary N (t0 # map Num rs)) = Num (sum_list rs / real_of_int (N - 1))
     \<and> mintime (summary N (t0 # map Num rs)) = Num (min FLT_MAX (Min (set rs)))
     \<and> maxtime (summary N (t0 # map Num rs)) = Num (max 0 (Max (set rs)))
     \<and> min FLT_MAX (Min (set rs)) \<le> sum_list rs / real_of_int (N - 1)
     \<and> sum_list rs / real_of_int (N - 1) \<le> max 0 (Max (set rs))
     \<and> ((\<forall>r\<in>set rs. 0 \<le> r \<and> r \<le> FLT_MAX) \<longrightarrow>
            mintime (summary N (t0 # map Num rs)) = Num (Min (set rs))
          \<and> maxtime (summary N (t0 # map Num rs)) = Num (Max (set rs)))"
proof -
  have s: "summary N (t0 # map Num rs) =
     \<lparr>avgtime = Num (sum_list rs / real_of_int (N - 1)),
      mintime = Num (min FLT_MAX (Min (set rs))),
      maxtime = Num (max 0 (Max (set rs)))\<rparr>"
    using assms by (rule summary_run)
  have ne: "rs \<noteq> []" using assms by auto
  have len: "real (length rs) = real_of_int (N - 1)" using assms by simp
  have lo: "Min (set rs) \<le> sum_list rs / real_of_int (N - 1)"
    using mean_between(1)[OF ne] by (simp only: len)
  have hi: "sum_list rs / real_of_int (N - 1) \<le> Max (set rs)"
    using mean_between(2)[OF ne] by (simp only: len)
  have 1: "min FLT_MAX (Min (set rs)) \<le> sum_list rs / real_of_int (N - 1)"
    using lo by (simp add: min_le_iff_disj)
  have 2: "sum_list rs / real_of_int (N - 1) \<le> max 0 (Max (set rs))"
    using hi by (simp add: le_max_iff_disj)
  have 3: "(\<forall>r\<in>set rs. 0 \<le> r \<and> r \<le> FLT_MAX) \<longrightarrow>
            mintime (summary N (t0 # map Num rs)) = Num (Min (set rs))
          \<and> maxtime (summary N (t0 # map Num rs)) = Num (Max (set rs))"
  proof
    assume b: "\<forall>r\<in>set rs. 0 \<le> r \<and> r \<le> FLT_MAX"
    have "Min (set rs) \<in> set rs" "Max (set rs) \<in> set rs" using ne by simp_all
    hence "Min (set rs) \<le> FLT_MAX" "0 \<le> Max (set rs)" using b by blast+
    then show "mintime (summary N (t0 # map Num rs)) = Num (Min (set rs))
          \<and> maxtime (summary N (t0 # map Num rs)) = Num (Max (set rs))"
      by (simp add: s min_def max_def)
  qed
  show ?thesis using 1 2 3 by (simp add: s)
qed

theorem aggregate_statistics_witness:
  "avgtime (summary 3 [Num 9, Num 1, Num 2]) = Num (3 / 2)
     \<and> mintime (summary 3 [Num 9, Num 1, Num 2]) = Num 1
     \<and> maxtime (summary 3 [Num 9, Num 1, Num 2]) = Num 2"
  using aggregate_statistics[of 3 "[1, 2]" "Num 9"] by (simp add: FLT_MAX_def)

text \<open>
  The claim as stated fails when the remaining trial times are negative (the wall
  clock has been set back during the trials): with \<open>NTIMES = 2\<close> and the times 1 and
  -1, \<open>maxtime\<close> is 0 and not -1.
\<close>

theorem aggregate_statistics_counterexample:
  "maxtime (summary 2 [Num 1, Num (- 1)]) \<noteq> Num (Max (set [- 1]))"
proof -
  have "summary 2 (Num 1 # map Num [- 1]) =
     \<lparr>avgtime = Num (sum_list [- 1] / real_of_int (2 - 1)),
      mintime = Num (min FLT_MAX (Min (set [- 1]))),
      maxtime = Num (max 0 (Max (set [- 1])))\<rparr>"
    by (rule summary_run) simp_all
  then show ?thesis by simp
qed

text \<open>
  C5. The one value printed is \<open>(2 * 4 * A) * 1e-6 / mintime\<close>, where 4 is the size
  of an element in bytes and \<open>A\<close> the array length: the byte count does not depend
  on the thread count or on the chunk size. \<open>mintime\<close> is the smallest time of the
  trials \<open>1, \<dots>, NTIMES - 1\<close>: no such time exceeds \<open>FLT_MAX\<close>, the initial value
  of \<open>mintime\<close>, when the clock samples are values that \<open>mysecond\<close> can return.
  When it is not 0 the quotient is a finite number.
\<close>

theorem bandwidth_formula:
  assumes "0 \<le> A" and "A < 2 ^ 31" and "1 \<le> T" and "T \<le> MAX_THREADS"
    and "alloc_ok e ArrA" and "alloc_ok e ArrB"
    and "\<forall>k<nat (NTIMES given). \<forall>i<nat T. create_ok (tenvs e k) i"
  shows "\<exists>st m'. main A given T e =
            Some (Ret ((T, ddiv (Num (1 / 1000000 * (2 * 4 * real_of_int A))) (mintime st)), st, m'))
     \<and> mintime st =
          Num (min FLT_MAX (Min ((\<lambda>k. mean_elapsed (tenvs e k) T) ` {1..<nat (NTIMES given)})))
     \<and> (Min ((\<lambda>k. mean_elapsed (tenvs e k) T) ` {1..<nat (NTIMES given)}) \<le> FLT_MAX \<longrightarrow>
          mintime st = Num (Min ((\<lambda>k. mean_elapsed (tenvs e k) T) ` {1..<nat (NTIMES given)}))
        \<and> (Min ((\<lambda>k. mean_elapsed (tenvs e k) T) ` {1..<nat (NTIMES given)}) \<noteq> 0 \<longrightarrow>
             ddiv (Num (1 / 1000000 * (2 * 4 * real_of_int A))) (mintime st) =
               Num ((2 * 4 * real_of_int A) * (1 / 1000000)
                      / Min ((\<lambda>k. mean_elapsed (tenvs e k) T) ` {1..<nat (NTIMES given)}))))
     \<and> ((\<forall>k. 1 \<le> k \<and> k < nat (NTIMES given) \<longrightarrow> (\<forall>i<nat T. clock_in_range (tenvs e k) i)) \<longrightarrow>
          Min ((\<lambda>k. mean_elapsed (tenvs e k) T) ` {1..<nat (NTIMES given)}) \<le> FLT_MAX)"
proof -
  let ?N = "NTIMES given"
  let ?f = "\<lambda>k. mean_elapsed (tenvs e k) T"
  let ?rs = "map ?f [1..<nat ?N]"
  let ?st = "summary ?N (map (\<lambda>k. Num (?f k)) [0..<nat ?N])"
  let ?M = "Min (?f ` {1..<nat ?N})"
  have N: "2 \<le> ?N" by (rule NTIMES_ge2)
  have A32: "A < 2 ^ 32" using assms(2) by simp
  have sp: "map (\<lambda>k. Num (?f k)) [0..<nat ?N] = Num (?f 0) # map Num ?rs"
    using N by (rule times_split)
  have "summary ?N (Num (?f 0) # map Num ?rs) =
     \<lparr>avgtime = Num (sum_list ?rs / real_of_int (?N - 1)),
      mintime = Num (min FLT_MAX (Min (set ?rs))),
      maxtime = Num (max 0 (Max (set ?rs)))\<rparr>"
    using N by (intro summary_run) simp_all
  hence mt: "mintime ?st = Num (min FLT_MAX ?M)" by (simp add: sp)
  have r: "main A given T e =
           Some (Ret ((T, bandwidth A ?st), ?st,
                      \<lparr>arr_a = replicate (nat A) 1,
                       arr_b = map (\<lambda>j. if j < nat T * unat (chunk_size A T) then 1 else 2) [0..<nat A],
                       arr_c = alloc A e ArrC\<rparr>))"
    using assms(1) A32 assms(3-7) by (rule main_run_eq)
  have bw: "bandwidth A ?st = ddiv (Num (1 / 1000000 * (2 * 4 * real_of_int A))) (mintime ?st)"
    using assms(1) A32 by (simp add: bandwidth_def bytes_eq)
  have fin: "?M \<le> FLT_MAX \<longrightarrow> mintime ?st = Num ?M
        \<and> (?M \<noteq> 0 \<longrightarrow> ddiv (Num (1 / 1000000 * (2 * 4 * real_of_int A))) (mintime ?st) =
               Num ((2 * 4 * real_of_int A) * (1 / 1000000) / ?M))"
    by (simp add: mt min_def)
  let ?m = "\<lparr>arr_a = replicate (nat A) 1,
             arr_b = map (\<lambda>j. if j < nat T * unat (chunk_size A T) then 1 else 2) [0..<nat A],
                       arr_c = alloc A e ArrC\<rparr>"
  have r2: "main A given T e =
     Some (Ret ((T, ddiv (Num (1 / 1000000 * (2 * 4 * real_of_int A))) (mintime ?st)), ?st, ?m))"
    using r by (simp only: bw)
  have rng: "(\<forall>k. 1 \<le> k \<and> k < nat ?N \<longrightarrow> (\<forall>i<nat T. clock_in_range (tenvs e k) i)) \<longrightarrow>
          ?M \<le> FLT_MAX"
  proof
    assume c: "\<forall>k. 1 \<le> k \<and> k < nat ?N \<longrightarrow> (\<forall>i<nat T. clock_in_range (tenvs e k) i)"
    have ne: "?f ` {1..<nat ?N} \<noteq> {}" using N by simp
    have "?M \<in> ?f ` {1..<nat ?N}" using ne by (intro Min_in) simp_all
    then obtain k where k: "k \<in> {1..<nat ?N}" and e: "?M = ?f k" by blast
    have "\<forall>i<nat T. clock_in_range (tenvs e k) i" using c k by simp
    then have "?f k \<le> FLT_MAX" using assms(3) by (intro mean_elapsed_bound)
    then show "?M \<le> FLT_MAX" by (simp only: e)
  qed
  show ?thesis
    by (rule exI[of _ ?st], rule exI[of _ ?m]) (intro conjI r2 mt fin rng)
qed

theorem bandwidth_formula_witness:
  "\<exists>st m'. main 40 (Some 3) 2 env0 = Some (Ret ((2, Num (2 / 9375)), st, m')) \<and> mintime st = Num (3 / 2)"
proof -
  have m: "\<And>k. mean_elapsed (tenvs env0 k) 2 = 3 / 2"
    by (simp add: mean_elapsed_def elapsed_def env0_def tenv0_def numeral_2_eq_2)
  have M: "Min ((\<lambda>k. mean_elapsed (tenvs env0 k) 2) ` {1..<nat (NTIMES (Some 3))}) = 3 / 2"
    by (simp add: m NTIMES_def image_constant_conv)
  have h: "(0::int) \<le> 40" "(40::int) < 2 ^ 31" "(1::int) \<le> 2" "2 \<le> MAX_THREADS"
    "alloc_ok env0 ArrA" "alloc_ok env0 ArrB"
    "\<forall>k<nat (NTIMES (Some 3)). \<forall>i<nat 2. create_ok (tenvs env0 k) i"
    by (simp_all add: MAX_THREADS_def env0_def tenv0_def)
  obtain st m' where r: "main 40 (Some 3) 2 env0 =
            Some (Ret ((2, ddiv (Num (1 / 1000000 * (2 * 4 * real_of_int 40))) (mintime st)), st, m'))"
    and mt: "mintime st =
          Num (min FLT_MAX (Min ((\<lambda>k. mean_elapsed (tenvs env0 k) 2) ` {1..<nat (NTIMES (Some 3))})))"
    using bandwidth_formula[OF h] by blast
  have mt': "mintime st = Num (3 / 2)" using mt unfolding M by (simp add: FLT_MAX_def)
  have "ddiv (Num (1 / 1000000 * (2 * 4 * real_of_int 40))) (mintime st) = Num (2 / 9375)"
    by (simp add: mt')
  with r mt' show ?thesis by auto
qed

text \<open>
  C6 (amended). For an array length below \<open>2\<^sup>3\<^sup>2\<close>: a trial leaves the source
  array and the array \<open>c\<close> as they were, and leaves the destination elements at the
  indices from \<open>T * S\<close> on as they were. No worker loads or stores at an index from
  \<open>T * S\<close> on; every store of worker \<open>tt\<close> goes to the destination array, at an
  index in \<open>[tt * S, (tt + 1) * S)\<close>; every load is from the source array.
\<close>

theorem frame_property:
  assumes "0 \<le> A" and "A < 2 ^ 32" and "1 \<le> T" and "T \<le> MAX_THREADS"
    and "\<forall>i<nat T. create_ok env i"
    and "length (arr_a m) = nat A" and "length (arr_b m) = nat A"
  shows "\<exists>t m' wl. trial A T env m = Some (Ret (t, m', wl))
     \<and> arr_a m' = arr_a m \<and> arr_c m' = arr_c m \<and> length (arr_b m') = length (arr_b m)
     \<and> (\<forall>j<nat A. nat T * unat (chunk_size A T) \<le> j \<longrightarrow> arr_b m' ! j = arr_b m ! j)
     \<and> (\<forall>(tt, acs)\<in>set wl. \<forall>x\<in>set acs.
           acc_index x < nat T * unat (chunk_size A T)
         \<and> (is_store x \<longrightarrow> acc_arr x = ArrB
               \<and> tt * unat (chunk_size A T) \<le> acc_index x
               \<and> acc_index x < (tt + 1) * unat (chunk_size A T))
         \<and> (\<not> is_store x \<longrightarrow> acc_arr x = ArrA))"
proof -
  let ?S = "unat (chunk_size A T)"
  obtain m' wl where r: "trial A T env m =
           Some (Ret (Num ((\<Sum>i = 0..<nat T. snd (clock env i) - fst (clock env i)) / real_of_int T), m', wl))"
    and a: "arr_a m' = arr_a m" and l: "length (arr_b m') = length (arr_b m)"
    and n: "\<forall>j<nat A. arr_b m' ! j = (if j < nat T * ?S then arr_a m ! j else arr_b m ! j)"
    and f: "map fst wl = [0..<nat T]"
    and w: "\<forall>(tt, acs)\<in>set wl. set acs = Rd ArrA ` {tt * ?S..<tt * ?S + ?S} \<union> Wr ArrB ` {tt * ?S..<tt * ?S + ?S}"
    using trial_run[OF assms refl] by blast
  have out: "\<forall>j<nat A. nat T * ?S \<le> j \<longrightarrow> arr_b m' ! j = arr_b m ! j"
    using n by simp
  have acc: "\<forall>(tt, acs)\<in>set wl. \<forall>x\<in>set acs.
           acc_index x < nat T * ?S
         \<and> (is_store x \<longrightarrow> acc_arr x = ArrB \<and> tt * ?S \<le> acc_index x \<and> acc_index x < (tt + 1) * ?S)
         \<and> (\<not> is_store x \<longrightarrow> acc_arr x = ArrA)"
  proof (intro ballI, clarify)
    fix tt acs x assume p: "(tt, acs) \<in> set wl" and x: "x \<in> set acs"
    from p have "tt \<in> set (map fst wl)" by force
    hence tt: "tt < nat T" using f by simp
    have "Suc tt * ?S \<le> nat T * ?S" using tt by (intro mult_right_mono) simp_all
    hence up: "tt * ?S + ?S \<le> nat T * ?S" by simp
    from p w have "set acs = Rd ArrA ` {tt * ?S..<tt * ?S + ?S} \<union> Wr ArrB ` {tt * ?S..<tt * ?S + ?S}"
      by auto
    with x have "(\<exists>j. x = Rd ArrA j \<and> tt * ?S \<le> j \<and> j < tt * ?S + ?S)
               \<or> (\<exists>j. x = Wr ArrB j \<and> tt * ?S \<le> j \<and> j < tt * ?S + ?S)" by auto
    then show "acc_index x < nat T * ?S
         \<and> (is_store x \<longrightarrow> acc_arr x = ArrB \<and> tt * ?S \<le> acc_index x \<and> acc_index x < (tt + 1) * ?S)
         \<and> (\<not> is_store x \<longrightarrow> acc_arr x = ArrA)"
      using up by auto
  qed
  have c: "arr_c m' = arr_c m" using r by (rule trial_arr_c)
  from r a c l out acc show ?thesis by blast
qed

theorem frame_property_witness:
  "\<exists>t m' wl. trial 40 2 tenv0 mem0 = Some (Ret (t, m', wl))
     \<and> arr_a m' = arr_a mem0 \<and> arr_c m' = arr_c mem0 \<and> length (arr_b m') = length (arr_b mem0)
     \<and> (\<forall>j<nat 40. nat 2 * unat (chunk_size 40 2) \<le> j \<longrightarrow> arr_b m' ! j = arr_b mem0 ! j)
     \<and> (\<forall>(tt, acs)\<in>set wl. \<forall>x\<in>set acs.
           acc_index x < nat 2 * unat (chunk_size 40 2)
         \<and> (is_store x \<longrightarrow> acc_arr x = ArrB
               \<and> tt * unat (chunk_size 40 2) \<le> acc_index x
               \<and> acc_index x < (tt + 1) * unat (chunk_size 40 2))
         \<and> (\<not> is_store x \<longrightarrow> acc_arr x = ArrA))"
  by (rule frame_property) (simp_all add: tenv0_def mem0_def MAX_THREADS_def)

text \<open>
  The claim as stated fails for an array of 6000000000 elements and 4 workers: worker
  3 stores to the destination element 205032704, which lies below \<open>3 * S\<close>, in the
  range of worker 0.
\<close>

theorem frame_property_counterexample:
  "Wr ArrB 205032704 \<in> set (accesses_of (trial 6000000000 4 tenv0 mem6G) 3)
     \<and> 205032704 < 3 * unat (chunk_size 6000000000 4)"
proof -
  obtain t m' wl acs where r: "trial 6000000000 4 tenv0 mem6G = Some (Ret (t, m', wl))"
    and p: "(3, acs) \<in> set wl" and x: "Wr ArrB 205032704 \<in> set acs"
    using trial_6G by blast
  have "Wr ArrB 205032704 \<in> set (concat (map snd (filter (\<lambda>p. fst p = 3) wl)))"
    using p x by (rule in_accesses)
  hence "Wr ArrB 205032704 \<in> set (accesses_of (trial 6000000000 4 tenv0 mem6G) 3)"
    by (simp add: accesses_of_def r)
  moreover have "205032704 < 3 * unat (chunk_size 6000000000 4)" by (simp add: chunk_size_6G)
  ultimately show ?thesis by (rule conjI)
qed




text \<open>
  C8 (amended). The results of \<open>posix_memalign\<close> and of \<open>pthread_create\<close> are
  never looked at, so no failure makes the program abort. After a failed
  allocation of \<open>a\<close> or \<open>b\<close> (with \<open>A > 0\<close>) the initialisation loop stores through
  the pointer that was never set: undefined behaviour, before any trial. When only
  the allocation of \<open>c\<close> fails (\<open>1 \<le> T \<le> 288\<close>, an array length below
  \<open>2\<^sup>3\<^sup>2\<close>, every worker created) the run ends with its result line, since \<open>c\<close> is
  never accessed. After the first failed \<open>pthread_create\<close> (\<open>1 \<le> T \<le> 288\<close>, an
  array length below \<open>2\<^sup>3\<^sup>2\<close>, \<open>a\<close> and \<open>b\<close> allocated) the barrier never opens:
  when worker 0 of that trial has been created, \<open>main\<close> stays blocked in the join
  of worker 0 and prints no measurement; when worker 0 is the one that was not
  created, \<open>main\<close> joins a handle that was never set, which is undefined behaviour.
\<close>

theorem failures_not_checked:
  "(0 < A \<and> (\<not> alloc_ok e ArrA \<or> \<not> alloc_ok e ArrB) \<longrightarrow> main A given T e = Some Undefined)
   \<and> (0 \<le> A \<and> A < 2 ^ 32 \<and> 1 \<le> T \<and> T \<le> MAX_THREADS \<and> alloc_ok e ArrA \<and> alloc_ok e ArrB
        \<and> \<not> alloc_ok e ArrC \<and> (\<forall>k<nat (NTIMES given). \<forall>i<nat T. create_ok (tenvs e k) i) \<longrightarrow>
        (\<exists>bw st m'. main A given T e = Some (Ret ((T, bw), st, m')) \<and> arr_c m' = []))
   \<and> (0 \<le> A \<and> A < 2 ^ 32 \<and> 1 \<le> T \<and> T \<le> MAX_THREADS \<and> alloc_ok e ArrA \<and> alloc_ok e ArrB
        \<and> kf < nat (NTIMES given) \<and> (\<forall>k<kf. \<forall>i<nat T. create_ok (tenvs e k) i)
        \<and> f < nat T \<and> \<not> create_ok (tenvs e kf) f \<longrightarrow>
        main A given T e = Some (if create_ok (tenvs e kf) 0 then Blocked else Undefined))"
proof (intro conjI impI)
  assume "0 < A \<and> (\<not> alloc_ok e ArrA \<or> \<not> alloc_ok e ArrB)"
  then show "main A given T e = Some Undefined" by (intro main_alloc_failure) simp_all
next
  assume h: "0 \<le> A \<and> A < 2 ^ 32 \<and> 1 \<le> T \<and> T \<le> MAX_THREADS \<and> alloc_ok e ArrA \<and> alloc_ok e ArrB
        \<and> \<not> alloc_ok e ArrC \<and> (\<forall>k<nat (NTIMES given). \<forall>i<nat T. create_ok (tenvs e k) i)"
  then have "main A given T e =
           Some (Ret ((T, bandwidth A (summary (NTIMES given)
                            (map (\<lambda>k. Num (mean_elapsed (tenvs e k) T)) [0..<nat (NTIMES given)]))),
                      summary (NTIMES given)
                            (map (\<lambda>k. Num (mean_elapsed (tenvs e k) T)) [0..<nat (NTIMES given)]),
                      \<lparr>arr_a = replicate (nat A) 1,
                       arr_b = map (\<lambda>j. if j < nat T * unat (chunk_size A T) then 1 else 2) [0..<nat A],
                       arr_c = alloc A e ArrC\<rparr>))"
    by (intro main_run_eq) simp_all
  moreover have "alloc A e ArrC = []" using h by (simp add: alloc_def)
  ultimately show "\<exists>bw st m'. main A given T e = Some (Ret ((T, bw), st, m')) \<and> arr_c m' = []"
    by simp
next
  assume h: "0 \<le> A \<and> A < 2 ^ 32 \<and> 1 \<le> T \<and> T \<le> MAX_THREADS \<and> alloc_ok e ArrA \<and> alloc_ok e ArrB
        \<and> kf < nat (NTIMES given) \<and> (\<forall>k<kf. \<forall>i<nat T. create_ok (tenvs e k) i)
        \<and> f < nat T \<and> \<not> create_ok (tenvs e kf) f"
  then show "main A given T e = Some (if create_ok (tenvs e kf) 0 then Blocked else Undefined)"
    by (intro main_create_failure[where f = f]) simp_all
qed

theorem failures_not_checked_witness:
  "main 40 None 2 (env0\<lparr>alloc_ok := (\<lambda>x. x \<noteq> ArrA)\<rparr>) = Some Undefined
   \<and> (\<exists>bw st m'. main 40 None 2 (env0\<lparr>alloc_ok := (\<lambda>x. x \<noteq> ArrC)\<rparr>) = Some (Ret ((2, bw), st, m'))
          \<and> arr_c m' = [])
   \<and> main 40 None 2 (env0\<lparr>tenvs := (\<lambda>k. tenv0\<lparr>create_ok := (\<lambda>i. i \<noteq> 0)\<rparr>)\<rparr>) = Some Undefined"
  using failures_not_checked[where A = 40 and T = 2 and given = None
          and e = "env0\<lparr>alloc_ok := (\<lambda>x. x \<noteq> ArrA)\<rparr>"]
    failures_not_checked[where A = 40 and T = 2 and given = None
          and e = "env0\<lparr>alloc_ok := (\<lambda>x. x \<noteq> ArrC)\<rparr>"]
    failures_not_checked[where A = 40 and T = 2 and given = None and kf = 0 and f = 0
          and e = "env0\<lparr>tenvs := (\<lambda>k. tenv0\<lparr>create_ok := (\<lambda>i. i \<noteq> 0)\<rparr>)\<rparr>"]
  by (simp add: env0_def tenv0_def MAX_THREADS_def NTIMES_def)

text \<open>
  The claim as stated fails when \<open>pthread_create\<close> fails for worker 1 of 2: the
  program does not abort, it stays blocked in the join of worker 0.
\<close>

theorem failures_not_checked_counterexample:
  "main 40 None 2 env_create_fails = Some Blocked"
proof -
  have "main 40 None 2 env_create_fails =
          Some (if create_ok (tenvs env_create_fails 0) 0 then Blocked else Undefined)"
    by (rule main_create_failure[where f = 1])
       (simp_all add: env_create_fails_def env0_def tenv0_def MAX_THREADS_def NTIMES_def)
  then show ?thesis by (simp add: env_create_fails_def env0_def tenv0_def)
qed




text \<open>
  C10 (amended). For an array length below \<open>2\<^sup>3\<^sup>2\<close>: the chunk size is a
  multiple of 16 and the kernel advances by 16, so a trial runs to its end without an
  access outside the arrays (such an access would be the outcome \<open>Undefined\<close>). The
  workers are \<open>0, \<dots>, T - 1\<close>; every index that worker \<open>tt\<close> touches lies in
  \<open>[tt * S, (tt + 1) * S)\<close>, that is at an offset below \<open>S\<close> in its view, and is below
  \<open>T * S \<le> A\<close>.
\<close>

theorem kernel_in_bounds:
  assumes "0 \<le> A" and "A < 2 ^ 32" and "1 \<le> T" and "T \<le> MAX_THREADS"
    and "\<forall>i<nat T. create_ok env i"
    and "length (arr_a m) = nat A" and "length (arr_b m) = nat A"
  shows "\<exists>t m' wl. trial A T env m = Some (Ret (t, m', wl))
     \<and> 16 dvd unat (chunk_size A T)
     \<and> map fst wl = [0..<nat T]
     \<and> (\<forall>(tt, acs)\<in>set wl. \<forall>x\<in>set acs.
           tt * unat (chunk_size A T) \<le> acc_index x
         \<and> acc_index x - arg_a (assign A T (int tt)) < unat (arg_size (assign A T (int tt)))
         \<and> acc_index x < (tt + 1) * unat (chunk_size A T)
         \<and> acc_index x < nat T * unat (chunk_size A T))
     \<and> nat T * unat (chunk_size A T) \<le> nat A"
proof -
  let ?S = "unat (chunk_size A T)"
  obtain m' wl where r: "trial A T env m =
           Some (Ret (Num ((\<Sum>i = 0..<nat T. snd (clock env i) - fst (clock env i)) / real_of_int T), m', wl))"
    and f: "map fst wl = [0..<nat T]"
    and w: "\<forall>(tt, acs)\<in>set wl. set acs = Rd ArrA ` {tt * ?S..<tt * ?S + ?S} \<union> Wr ArrB ` {tt * ?S..<tt * ?S + ?S}"
    using trial_run[OF assms refl] by blast
  have dv: "16 dvd ?S" using assms(1-3) by (rule chunk_size_dvd)
  have tot: "nat T * ?S \<le> nat A" using assms(1-3) by (rule chunk_total)
  have acc: "\<forall>(tt, acs)\<in>set wl. \<forall>x\<in>set acs.
           tt * ?S \<le> acc_index x
         \<and> acc_index x - arg_a (assign A T (int tt)) < unat (arg_size (assign A T (int tt)))
         \<and> acc_index x < (tt + 1) * ?S
         \<and> acc_index x < nat T * ?S"
  proof (intro ballI, clarify)
    fix tt acs x assume p: "(tt, acs) \<in> set wl" and x: "x \<in> set acs"
    from p have "tt \<in> set (map fst wl)" by force
    hence tt: "tt < nat T" using f by simp
    have "Suc tt * ?S \<le> nat T * ?S" using tt by (intro mult_right_mono) simp_all
    hence up: "tt * ?S + ?S \<le> nat T * ?S" by simp
    have off: "unat (chunk_size A T * word_of_int (int tt)) = nat (int tt) * ?S"
      using assms(1-3) tt by (intro assign_offset) simp_all
    have a: "arg_a (assign A T (int tt)) = tt * ?S" "unat (arg_size (assign A T (int tt))) = ?S"
      using off by (simp_all add: assign_def Let_def)
    from p w have "set acs = Rd ArrA ` {tt * ?S..<tt * ?S + ?S} \<union> Wr ArrB ` {tt * ?S..<tt * ?S + ?S}"
      by auto
    with x have "(\<exists>j. x = Rd ArrA j \<and> tt * ?S \<le> j \<and> j < tt * ?S + ?S)
               \<or> (\<exists>j. x = Wr ArrB j \<and> tt * ?S \<le> j \<and> j < tt * ?S + ?S)" by auto
    then show "tt * ?S \<le> acc_index x
         \<and> acc_index x - arg_a (assign A T (int tt)) < unat (arg_size (assign A T (int tt)))
         \<and> acc_index x < (tt + 1) * ?S
         \<and> acc_index x < nat T * ?S"
      using up a by auto
  qed
  from r dv f acc tot show ?thesis by blast
qed

theorem kernel_in_bounds_witness:
  "\<exists>t m' wl. trial 40 2 tenv0 mem0 = Some (Ret (t, m', wl))
     \<and> 16 dvd unat (chunk_size 40 2)
     \<and> map fst wl = [0..<nat 2]
     \<and> (\<forall>(tt, acs)\<in>set wl. \<forall>x\<in>set acs.
           tt * unat (chunk_size 40 2) \<le> acc_index x
         \<and> acc_index x - arg_a (assign 40 2 (int tt)) < unat (arg_size (assign 40 2 (int tt)))
         \<and> acc_index x < (tt + 1) * unat (chunk_size 40 2)
         \<and> acc_index x < nat 2 * unat (chunk_size 40 2))
     \<and> nat 2 * unat (chunk_size 40 2) \<le> nat 40"
  by (rule kernel_in_bounds) (simp_all add: tenv0_def mem0_def MAX_THREADS_def)

text \<open>
  The claim as stated fails for an array of 6000000000 elements and 4 workers: worker
  3 loads the source element 205032704, which is not in \<open>[3 * S, 4 * S)\<close>.
\<close>

theorem kernel_in_bounds_counterexample:
  "Rd ArrA 205032704 \<in> set (accesses_of (trial 6000000000 4 tenv0 mem6G) 3)
     \<and> 205032704 < 3 * unat (chunk_size 6000000000 4)"
proof -
  obtain t m' wl acs where r: "trial 6000000000 4 tenv0 mem6G = Some (Ret (t, m', wl))"
    and p: "(3, acs) \<in> set wl" and x: "Rd ArrA 205032704 \<in> set acs"
    using trial_6G by blast
  have "Rd ArrA 205032704 \<in> set (concat (map snd (filter (\<lambda>p. fst p = 3) wl)))"
    using p x by (rule in_accesses)
  hence "Rd ArrA 205032704 \<in> set (accesses_of (trial 6000000000 4 tenv0 mem6G) 3)"
    by (simp add: accesses_of_def r)
  moreover have "205032704 < 3 * unat (chunk_size 6000000000 4)" by (simp add: chunk_size_6G)
  ultimately show ?thesis by (rule conjI)
qed

end
